theory Spec2Isabelle
  imports Complex_Main
begin

section \<open>NumPy arrays over exact arithmetic\<close>

text \<open>
  The filter of \<^verbatim>\<open>KalmanFilterExample.py\<close> is written against NumPy. Its arrays are
  modelled with entries in \<^typ>\<open>real\<close> (exact arithmetic in place of IEEE doubles) and in
  the two ranks the program uses: rank 0 (the Python numbers \<^verbatim>\<open>0\<close> that stand for an
  absent \<^verbatim>\<open>B\<close> and \<^verbatim>\<open>u\<close>, and the scalar measurements of the demo loop) and rank 2
  (the matrices, and the vectors, which the demo reshapes to columns). Arrays of rank 1
  are not modelled. \<open>Arr2 c rows\<close> is the array of shape \<open>(length rows, c)\<close>; it is well
  formed when every row has length \<open>c\<close>.

  A real number stands for a finite value of the program: the model has no \<^verbatim>\<open>inf\<close> and
  no \<^verbatim>\<open>nan\<close>, no rounding and no integer wrap-around. A statement below that rests on
  an arithmetic law says so; the statements about shapes, exceptions and the order of
  the assignments use none.

  The exceptions of Python and NumPy are values of \<open>error\<close>. The last three
  constructors are the error names of the specification; the source raises none of
  them.
\<close>

datatype error =
  ValueError | IndexError | LinAlgError
  | InvalidModelError | DimensionMismatchError | SingularInnovationCovarianceError

datatype ndarray = Scalar real | Arr2 nat "real list list"

type_synonym matrix = "real list list"

definition bind_err :: "error + 'a \<Rightarrow> ('a \<Rightarrow> error + 'b) \<Rightarrow> error + 'b" where
  "bind_err r f = (case r of Inl e \<Rightarrow> Inl e | Inr v \<Rightarrow> f v)"

subsection \<open>Plain matrix algebra on lists of rows\<close>

definition mat_mul :: "nat \<Rightarrow> nat \<Rightarrow> matrix \<Rightarrow> matrix \<Rightarrow> matrix" where
  \<comment> \<open>the product of an \<open>r \<times> k\<close> and a \<open>k \<times> c\<close> matrix\<close>
  "mat_mul k c A B = map (\<lambda>row. map (\<lambda>j. \<Sum>l<k. row ! l * B ! l ! j) [0..<c]) A"

definition mat_T :: "nat \<Rightarrow> matrix \<Rightarrow> matrix" where
  \<comment> \<open>the transpose of a matrix with \<open>c\<close> columns\<close>
  "mat_T c A = map (\<lambda>j. map (\<lambda>row. row ! j) A) [0..<c]"

definition mat_add :: "matrix \<Rightarrow> matrix \<Rightarrow> matrix" where
  "mat_add A B = map2 (map2 (+)) A B"

definition mat_sub :: "matrix \<Rightarrow> matrix \<Rightarrow> matrix" where
  "mat_sub A B = map2 (map2 (-)) A B"

definition eye :: "nat \<Rightarrow> matrix" where
  "eye k = map (\<lambda>i. map (\<lambda>j. if i = j then 1 else 0) [0..<k]) [0..<k]"

definition is_mat :: "nat \<Rightarrow> nat \<Rightarrow> matrix \<Rightarrow> bool" where
  "is_mat r c A = (length A = r \<and> list_all (\<lambda>row. length row = c) A)"

subsection \<open>The NumPy operations the filter calls\<close>

fun shape_1 :: "ndarray \<Rightarrow> error + nat" where
  \<comment> \<open>\<^verbatim>\<open>a.shape[1]\<close>: the shape of a rank-0 array is the empty tuple\<close>
  "shape_1 (Scalar a) = Inl IndexError"
| "shape_1 (Arr2 c A) = Inr c"

definition bdim :: "nat \<Rightarrow> nat \<Rightarrow> nat option" where
  \<comment> \<open>broadcasting of one axis: the sizes agree, or one of them is 1\<close>
  "bdim a b = (if a = b then Some a else if a = 1 then Some b
               else if b = 1 then Some a else None)"

definition stretch :: "nat \<Rightarrow> nat \<Rightarrow> nat" where
  \<comment> \<open>the index read along an axis of size \<open>d\<close> when the result is read at \<open>i\<close>\<close>
  "stretch d i = (if d = 1 then 0 else i)"

fun np_binop :: "(real \<Rightarrow> real \<Rightarrow> real) \<Rightarrow> ndarray \<Rightarrow> ndarray \<Rightarrow> error + ndarray" where
  "np_binop f (Scalar a) (Scalar b) = Inr (Scalar (f a b))"
| "np_binop f (Scalar a) (Arr2 c B) = Inr (Arr2 c (map (map (f a)) B))"
| "np_binop f (Arr2 c A) (Scalar b) = Inr (Arr2 c (map (map (\<lambda>v. f v b)) A))"
| "np_binop f (Arr2 cA A) (Arr2 cB B) =
     (case bdim (length A) (length B) of
        None \<Rightarrow> Inl ValueError
      | Some r \<Rightarrow>
         (case bdim cA cB of
            None \<Rightarrow> Inl ValueError
          | Some c \<Rightarrow>
              Inr (Arr2 c (map (\<lambda>i. map (\<lambda>j.
                     f (A ! stretch (length A) i ! stretch cA j)
                       (B ! stretch (length B) i ! stretch cB j)) [0..<c]) [0..<r]))))"

definition np_add :: "ndarray \<Rightarrow> ndarray \<Rightarrow> error + ndarray" where
  "np_add = np_binop (+)"

definition np_sub :: "ndarray \<Rightarrow> ndarray \<Rightarrow> error + ndarray" where
  "np_sub = np_binop (-)"

fun np_dot :: "ndarray \<Rightarrow> ndarray \<Rightarrow> error + ndarray" where
  \<comment> \<open>\<^verbatim>\<open>np.dot\<close>: with an operand of rank 0 it is the elementwise product\<close>
  "np_dot (Scalar a) Y = np_binop (*) (Scalar a) Y"
| "np_dot (Arr2 c A) (Scalar b) = np_binop (*) (Arr2 c A) (Scalar b)"
| "np_dot (Arr2 cA A) (Arr2 cB B) =
     (if cA = length B then Inr (Arr2 cB (mat_mul cA cB A B)) else Inl ValueError)"

fun np_T :: "ndarray \<Rightarrow> ndarray" where
  "np_T (Scalar a) = Scalar a"
| "np_T (Arr2 c A) = Arr2 (length A) (mat_T c A)"

definition np_eye :: "nat \<Rightarrow> ndarray" where
  "np_eye k = Arr2 k (eye k)"

definition np_zeros :: "nat \<Rightarrow> nat \<Rightarrow> ndarray" where
  "np_zeros r c = Arr2 c (replicate r (replicate c 0))"

subsection \<open>\<^verbatim>\<open>np.linalg.inv\<close>: Gauss-Jordan elimination\<close>

text \<open>
  The library routine is modelled by Gauss-Jordan elimination on the rows of \<open>[A | I]\<close>.
  It raises \<^verbatim>\<open>LinAlgError\<close> for an array of rank 0, for a matrix that is not square, and
  when a column has no pivot. The pivot taken is the first entry that is not zero,
  where LAPACK takes the largest; over exact arithmetic the choice does not show in the
  result, since the run returns the inverse whenever there is one and fails otherwise
  (\<open>linalg_inv_complete\<close> and \<open>linalg_inv_fails_iff\<close> below).

  This is the routine over exact arithmetic. LAPACK factorises in floating point: on a
  matrix that is singular it can find a tiny pivot and return a matrix, and on an
  ill-conditioned matrix that is invertible it can raise. What \<^verbatim>\<open>update\<close> does with the
  outcome of the routine, whatever decides it, is stated with the routine as a
  parameter (\<open>update_via\<close> below).
\<close>

definition gj_step :: "nat \<Rightarrow> matrix \<Rightarrow> matrix option" where
  "gj_step j M =
     (case find (\<lambda>i. M ! i ! j \<noteq> 0) [j..<length M] of
        None \<Rightarrow> None
      | Some p \<Rightarrow>
          (let M1 = M[j := M ! p, p := M ! j];
               prow = map (\<lambda>v. v / (M1 ! j ! j)) (M1 ! j)
           in Some (map (\<lambda>i. if i = j then prow
                              else map2 (\<lambda>a b. a - (M1 ! i ! j) * b) (M1 ! i) prow)
                      [0..<length M])))"

fun gauss_jordan :: "nat \<Rightarrow> nat \<Rightarrow> matrix \<Rightarrow> matrix option" where
  "gauss_jordan 0 j M = Some M"
| "gauss_jordan (Suc k) j M =
     (case gj_step j M of None \<Rightarrow> None | Some M' \<Rightarrow> gauss_jordan k (Suc j) M')"

fun linalg_inv :: "ndarray \<Rightarrow> error + ndarray" where
  "linalg_inv (Scalar a) = Inl LinAlgError"
| "linalg_inv (Arr2 c A) =
     (if length A \<noteq> c then Inl LinAlgError
      else (case gauss_jordan c 0 (map2 (@) A (eye c)) of
              None \<Rightarrow> Inl LinAlgError
            | Some M \<Rightarrow> Inr (Arr2 c (map (drop c) M))))"

section \<open>The class \<^verbatim>\<open>KalmanFilter\<close>\<close>

text \<open>
  The attributes of an instance. The fields carry the prefix \<open>kf_\<close> because a record
  field is a constant of the theory; \<open>kf_x\<close> is the attribute \<^verbatim>\<open>self.x\<close>, and so on.
\<close>

record KalmanFilter =
  kf_n :: nat
  kf_m :: nat
  kf_F :: ndarray
  kf_H :: ndarray
  kf_B :: ndarray
  kf_Q :: ndarray
  kf_R :: ndarray
  kf_P :: ndarray
  kf_x :: ndarray

definition default_to :: "ndarray \<Rightarrow> ndarray option \<Rightarrow> ndarray" where
  \<comment> \<open>\<^verbatim>\<open>d if a is None else a\<close>\<close>
  "default_to d a = (case a of None \<Rightarrow> d | Some v \<Rightarrow> v)"

definition init ::
  "ndarray option \<Rightarrow> ndarray option \<Rightarrow> ndarray option \<Rightarrow> ndarray option \<Rightarrow>
   ndarray option \<Rightarrow> ndarray option \<Rightarrow> ndarray option \<Rightarrow> error + KalmanFilter" where
  \<comment> \<open>\<^verbatim>\<open>__init__(self, F, B, H, Q, R, x0, P)\<close>; an omitted argument is \<open>None\<close>\<close>
  "init F B H Q R x0 P =
     (case F of
        None \<Rightarrow> Inl ValueError
      | Some F' \<Rightarrow>
         (case H of
            None \<Rightarrow> Inl ValueError
          | Some H' \<Rightarrow>
              bind_err (shape_1 F') (\<lambda>n.
              bind_err (shape_1 H') (\<lambda>m.
                Inr \<lparr> kf_n = n, kf_m = m, kf_F = F', kf_H = H',
                      kf_B = default_to (Scalar 0) B,
                      kf_Q = default_to (np_eye n) Q,
                      kf_R = default_to (np_eye n) R,
                      kf_P = default_to (np_eye n) P,
                      kf_x = default_to (np_zeros n 1) x0 \<rparr>))))"

text \<open>
  A method returns its outcome together with the instance as the call leaves it, so
  that an exception raised after an attribute was assigned shows the assignment.
\<close>

definition predict_x :: "KalmanFilter \<Rightarrow> ndarray \<Rightarrow> error + ndarray" where
  \<comment> \<open>\<^verbatim>\<open>np.dot(self.F, self.x) + np.dot(self.B, u)\<close>\<close>
  "predict_x kf u =
     bind_err (np_dot (kf_F kf) (kf_x kf)) (\<lambda>Fx.
     bind_err (np_dot (kf_B kf) u) (\<lambda>Bu. np_add Fx Bu))"

definition predict_P :: "KalmanFilter \<Rightarrow> error + ndarray" where
  \<comment> \<open>\<^verbatim>\<open>np.dot(np.dot(self.F, self.P), self.F.T) + self.Q\<close>\<close>
  "predict_P kf =
     bind_err (np_dot (kf_F kf) (kf_P kf)) (\<lambda>FP.
     bind_err (np_dot FP (np_T (kf_F kf))) (\<lambda>FPFt. np_add FPFt (kf_Q kf)))"

definition predict :: "KalmanFilter \<Rightarrow> ndarray \<Rightarrow> (error + ndarray) \<times> KalmanFilter" where
  "predict kf u =
     (case predict_x kf u of
        Inl e \<Rightarrow> (Inl e, kf)
      | Inr x' \<Rightarrow>
          (let kf1 = kf\<lparr>kf_x := x'\<rparr> in
           case predict_P kf1 of
             Inl e \<Rightarrow> (Inl e, kf1)
           | Inr P' \<Rightarrow> (Inr x', kf1\<lparr>kf_P := P'\<rparr>)))"

definition innovation :: "KalmanFilter \<Rightarrow> ndarray \<Rightarrow> error + ndarray" where
  \<comment> \<open>\<^verbatim>\<open>y = z - np.dot(self.H, self.x)\<close>\<close>
  "innovation kf z = bind_err (np_dot (kf_H kf) (kf_x kf)) (\<lambda>Hx. np_sub z Hx)"

definition innovation_cov :: "KalmanFilter \<Rightarrow> error + ndarray" where
  \<comment> \<open>\<^verbatim>\<open>S = self.R + np.dot(self.H, np.dot(self.P, self.H.T))\<close>\<close>
  "innovation_cov kf =
     bind_err (np_dot (kf_P kf) (np_T (kf_H kf))) (\<lambda>PHt.
     bind_err (np_dot (kf_H kf) PHt) (\<lambda>HPHt. np_add (kf_R kf) HPHt))"

definition kalman_gain :: "KalmanFilter \<Rightarrow> ndarray \<Rightarrow> error + ndarray" where
  \<comment> \<open>\<^verbatim>\<open>K = np.dot(np.dot(self.P, self.H.T), np.linalg.inv(S))\<close>\<close>
  "kalman_gain kf S =
     bind_err (np_dot (kf_P kf) (np_T (kf_H kf))) (\<lambda>PHt.
     bind_err (linalg_inv S) (\<lambda>Si. np_dot PHt Si))"

definition update_x :: "KalmanFilter \<Rightarrow> ndarray \<Rightarrow> ndarray \<Rightarrow> error + ndarray" where
  \<comment> \<open>\<^verbatim>\<open>self.x + np.dot(K, y)\<close>\<close>
  "update_x kf K y = bind_err (np_dot K y) (\<lambda>Ky. np_add (kf_x kf) Ky)"

definition joseph :: "KalmanFilter \<Rightarrow> ndarray \<Rightarrow> error + ndarray" where
  \<comment> \<open>\<^verbatim>\<open>I = np.eye(self.n)\<close> and the right-hand side of the assignment to \<^verbatim>\<open>self.P\<close>\<close>
  "joseph kf K =
     (let I = np_eye (kf_n kf) in
      bind_err (np_dot K (kf_H kf)) (\<lambda>KH.
      bind_err (np_sub I KH) (\<lambda>IKH.
      bind_err (np_dot IKH (kf_P kf)) (\<lambda>IKHP.
      bind_err (np_dot K (kf_H kf)) (\<lambda>KH2.
      bind_err (np_sub I KH2) (\<lambda>IKH2.
      bind_err (np_dot IKHP (np_T IKH2)) (\<lambda>lhs.
      bind_err (np_dot K (kf_R kf)) (\<lambda>KR.
      bind_err (np_dot KR (np_T K)) (\<lambda>rhs. np_add lhs rhs)))))))))"

definition update :: "KalmanFilter \<Rightarrow> ndarray \<Rightarrow> (error + unit) \<times> KalmanFilter" where
  "update kf z =
     (case bind_err (innovation kf z) (\<lambda>y.
           bind_err (innovation_cov kf) (\<lambda>S.
           bind_err (kalman_gain kf S) (\<lambda>K.
           bind_err (update_x kf K y) (\<lambda>x'. Inr (K, x'))))) of
        Inl e \<Rightarrow> (Inl e, kf)
      | Inr (K, x') \<Rightarrow>
          (let kf1 = kf\<lparr>kf_x := x'\<rparr> in
           case joseph kf1 K of
             Inl e \<Rightarrow> (Inl e, kf1)
           | Inr P' \<Rightarrow> (Inr (), kf1\<lparr>kf_P := P'\<rparr>)))"



section \<open>Objects and references\<close>

text \<open>
  In Python an attribute holds a reference. The constructor stores the references it is
  given (\<^verbatim>\<open>self.F = F\<close>), so two filters built from the same arguments share those array
  objects. To state what one instance can do to another, a \<open>world\<close> holds the array
  objects (a reference is an index into \<open>arrays\<close>) and the instances, whose attributes
  are references.

  The right-hand sides of the source's assignments are NumPy expressions
  (\<^verbatim>\<open>np.dot\<close>, \<^verbatim>\<open>+\<close>, \<^verbatim>\<open>-\<close>, \<^verbatim>\<open>.T\<close>, \<^verbatim>\<open>np.eye\<close>, \<^verbatim>\<open>np.linalg.inv\<close>); none of them writes to an
  operand, and the source uses no in-place operator. An assignment therefore evaluates
  its right-hand side on the arrays the attributes refer to, stores the value as a new
  object and rebinds the attribute.
\<close>

record kf_obj =
  o_n :: nat
  o_m :: nat
  o_F :: nat
  o_H :: nat
  o_B :: nat
  o_Q :: nat
  o_R :: nat
  o_P :: nat
  o_x :: nat

record world =
  arrays :: "ndarray list"
  insts :: "kf_obj list"

definition view :: "world \<Rightarrow> nat \<Rightarrow> KalmanFilter" where
  \<comment> \<open>the attribute values of instance \<open>i\<close>\<close>
  "view w i =
     (let ob = insts w ! i in
      \<lparr> kf_n = o_n ob, kf_m = o_m ob,
        kf_F = arrays w ! o_F ob, kf_H = arrays w ! o_H ob, kf_B = arrays w ! o_B ob,
        kf_Q = arrays w ! o_Q ob, kf_R = arrays w ! o_R ob, kf_P = arrays w ! o_P ob,
        kf_x = arrays w ! o_x ob \<rparr>)"

definition new_array :: "ndarray \<Rightarrow> world \<Rightarrow> nat \<times> world" where
  "new_array a w = (length (arrays w), w\<lparr>arrays := arrays w @ [a]\<rparr>)"

definition set_attr :: "nat \<Rightarrow> (kf_obj \<Rightarrow> kf_obj) \<Rightarrow> world \<Rightarrow> world" where
  "set_attr i f w = w\<lparr>insts := (insts w)[i := f (insts w ! i)]\<rparr>"

definition default_ref :: "ndarray \<Rightarrow> nat option \<Rightarrow> world \<Rightarrow> nat \<times> world" where
  \<comment> \<open>\<^verbatim>\<open>d if a is None else a\<close>: the default is a new object, an argument is stored as given\<close>
  "default_ref d a w = (case a of None \<Rightarrow> new_array d w | Some r \<Rightarrow> (r, w))"

definition init_h ::
  "nat option \<Rightarrow> nat option \<Rightarrow> nat option \<Rightarrow> nat option \<Rightarrow>
   nat option \<Rightarrow> nat option \<Rightarrow> nat option \<Rightarrow> world \<Rightarrow> (error + nat) \<times> world" where
  "init_h F B H Q R x0 P w =
     (case F of
        None \<Rightarrow> (Inl ValueError, w)
      | Some rF \<Rightarrow>
         (case H of
            None \<Rightarrow> (Inl ValueError, w)
          | Some rH \<Rightarrow>
             (case shape_1 (arrays w ! rF) of
                Inl e \<Rightarrow> (Inl e, w)
              | Inr n \<Rightarrow>
                 (case shape_1 (arrays w ! rH) of
                    Inl e \<Rightarrow> (Inl e, w)
                  | Inr m \<Rightarrow>
                     (let (rB, w1) = default_ref (Scalar 0) B w;
                          (rQ, w2) = default_ref (np_eye n) Q w1;
                          (rR, w3) = default_ref (np_eye n) R w2;
                          (rP, w4) = default_ref (np_eye n) P w3;
                          (rx, w5) = default_ref (np_zeros n 1) x0 w4
                      in (Inr (length (insts w5)),
                          w5\<lparr>insts := insts w5 @
                               [\<lparr> o_n = n, o_m = m, o_F = rF, o_H = rH, o_B = rB,
                                  o_Q = rQ, o_R = rR, o_P = rP, o_x = rx \<rparr>]\<rparr>))))))"

definition predict_h :: "nat \<Rightarrow> nat \<Rightarrow> world \<Rightarrow> (error + nat) \<times> world" where
  \<comment> \<open>\<^verbatim>\<open>predict\<close> of instance \<open>self\<close> with the argument object \<open>u\<close>; returns the reference in \<^verbatim>\<open>self.x\<close>\<close>
  "predict_h self u w =
     (case predict_x (view w self) (arrays w ! u) of
        Inl e \<Rightarrow> (Inl e, w)
      | Inr x' \<Rightarrow>
          (let (rx, w1) = new_array x' w;
               w2 = set_attr self (\<lambda>ob. ob\<lparr>o_x := rx\<rparr>) w1
           in case predict_P (view w2 self) of
                Inl e \<Rightarrow> (Inl e, w2)
              | Inr P' \<Rightarrow>
                  (let (rP, w3) = new_array P' w2;
                       w4 = set_attr self (\<lambda>ob. ob\<lparr>o_P := rP\<rparr>) w3
                   in (Inr (o_x (insts w4 ! self)), w4))))"

definition update_h :: "nat \<Rightarrow> nat \<Rightarrow> world \<Rightarrow> (error + unit) \<times> world" where
  "update_h self z w =
     (let kf = view w self in
      case bind_err (innovation kf (arrays w ! z)) (\<lambda>y.
           bind_err (innovation_cov kf) (\<lambda>S.
           bind_err (kalman_gain kf S) (\<lambda>K.
           bind_err (update_x kf K y) (\<lambda>x'. Inr (K, x'))))) of
        Inl e \<Rightarrow> (Inl e, w)
      | Inr (K, x') \<Rightarrow>
          (let (rx, w1) = new_array x' w;
               w2 = set_attr self (\<lambda>ob. ob\<lparr>o_x := rx\<rparr>) w1
           in case joseph (view w2 self) K of
                Inl e \<Rightarrow> (Inl e, w2)
              | Inr P' \<Rightarrow>
                  (let (rP, w3) = new_array P' w2;
                       w4 = set_attr self (\<lambda>ob. ob\<lparr>o_P := rP\<rparr>) w3
                   in (Inr (), w4))))"

text \<open>
  A driver: a call names its argument object; \<open>feed_both a b cs w\<close> makes every call of
  \<open>cs\<close> on instance \<open>a\<close> and then on instance \<open>b\<close>, with the same argument object, goes on
  after an exception, and lists the attribute values of both after each call.
\<close>

datatype call = Predict nat | Update nat

fun arg_of :: "call \<Rightarrow> nat" where
  "arg_of (Predict u) = u"
| "arg_of (Update z) = z"

fun step_h :: "nat \<Rightarrow> call \<Rightarrow> world \<Rightarrow> world" where
  "step_h i (Predict u) w = snd (predict_h i u w)"
| "step_h i (Update z) w = snd (update_h i z w)"

fun feed_both :: "nat \<Rightarrow> nat \<Rightarrow> call list \<Rightarrow> world \<Rightarrow> (KalmanFilter \<times> KalmanFilter) list" where
  "feed_both a b [] w = []"
| "feed_both a b (c # cs) w =
     (let w' = step_h b c (step_h a c w) in (view w' a, view w' b) # feed_both a b cs w')"

definition refs_ok :: "world \<Rightarrow> kf_obj \<Rightarrow> bool" where
  "refs_ok w ob = (o_F ob < length (arrays w) \<and> o_H ob < length (arrays w) \<and>
                   o_B ob < length (arrays w) \<and> o_Q ob < length (arrays w) \<and>
                   o_R ob < length (arrays w) \<and> o_P ob < length (arrays w) \<and>
                   o_x ob < length (arrays w))"

definition wf_world :: "world \<Rightarrow> bool" where
  \<comment> \<open>no attribute dangles\<close>
  "wf_world w = list_all (refs_ok w) (insts w)"

fun apply_call :: "ndarray \<Rightarrow> call \<Rightarrow> KalmanFilter \<Rightarrow> KalmanFilter" where
  \<comment> \<open>the call on attribute values, \<open>v\<close> being the value of its argument\<close>
  "apply_call v (Predict u) kf = snd (predict kf v)"
| "apply_call v (Update z) kf = snd (update kf v)"

text \<open>
  The same calls on attribute values alone: \<open>pure_run env cs kf\<close> lists the filter after
  each call of \<open>cs\<close>, \<open>env\<close> giving the value of an argument object. \<open>deref_opt\<close> reads an
  optional constructor argument, and \<open>opt_ok\<close> says that it does not dangle.
\<close>

fun pure_run :: "(nat \<Rightarrow> ndarray) \<Rightarrow> call list \<Rightarrow> KalmanFilter \<Rightarrow> KalmanFilter list" where
  "pure_run env [] kf = []"
| "pure_run env (c # cs) kf =
     (let kf' = apply_call (env (arg_of c)) c kf in kf' # pure_run env cs kf')"

definition deref_opt :: "world \<Rightarrow> nat option \<Rightarrow> ndarray option" where
  "deref_opt w r = map_option (\<lambda>k. arrays w ! k) r"

definition opt_ok :: "world \<Rightarrow> nat option \<Rightarrow> bool" where
  "opt_ok w r = (case r of None \<Rightarrow> True | Some k \<Rightarrow> k < length (arrays w))"

section \<open>Notions used in the proofs\<close>

text \<open>
  \<open>is_inverse n A X\<close>: the \<open>n \<times> n\<close> matrix \<open>X\<close> is the inverse of \<open>A\<close>. The other
  definitions describe the elimination: a functional that is linear on rows, rows on
  which it vanishes, columns that are already unit columns, and the two functionals
  that relate the halves of \<open>[A | I]\<close>.
\<close>

definition row_linear :: "nat \<Rightarrow> (real list \<Rightarrow> real) \<Rightarrow> bool" where
  "row_linear w \<phi> =
     ((\<forall>a b s. length a = w \<longrightarrow> length b = w \<longrightarrow>
          \<phi> (map2 (\<lambda>x y. x - s * y) a b) = \<phi> a - s * \<phi> b) \<and>
      (\<forall>a s. length a = w \<longrightarrow> \<phi> (map (\<lambda>v. v / s) a) = \<phi> a / s))"

definition unit_cols :: "nat \<Rightarrow> nat \<Rightarrow> matrix \<Rightarrow> bool" where
  "unit_cols n j M = (\<forall>i<n. \<forall>c<j. M ! i ! c = (if i = c then 1 else 0))"

definition rows_vanish :: "nat \<Rightarrow> (real list \<Rightarrow> real) \<Rightarrow> matrix \<Rightarrow> bool" where
  "rows_vanish n \<phi> M = (\<forall>i<n. \<phi> (M ! i) = 0)"

definition lrel :: "nat \<Rightarrow> matrix \<Rightarrow> nat \<Rightarrow> real list \<Rightarrow> real" where
  "lrel n A c row = row ! c - (\<Sum>k<n. row ! (n + k) * A ! k ! c)"

definition rdot :: "nat \<Rightarrow> (nat \<Rightarrow> real) \<Rightarrow> real list \<Rightarrow> real" where
  "rdot n v row = (\<Sum>k<n. row ! (n + k) * v k)"

definition is_inverse :: "nat \<Rightarrow> matrix \<Rightarrow> matrix \<Rightarrow> bool" where
  "is_inverse n A X = (is_mat n n X \<and> mat_mul n n X A = eye n \<and> mat_mul n n A X = eye n)"

text \<open>
  Shapes. \<open>has_shape r c a\<close>: the array \<open>a\<close> has rank 2 and shape \<open>(r, c)\<close>. A filter is
  \<open>consistent n m\<close> when its matrices have the dimensions of the data model: \<open>F\<close>, \<open>Q\<close>
  and \<open>P\<close> are \<open>n \<times> n\<close>, \<open>H\<close> is \<open>m \<times> n\<close>, \<open>R\<close> is \<open>m \<times> m\<close>, and \<^verbatim>\<open>self.n\<close> is \<open>n\<close>. Nothing
  is asked of \<^verbatim>\<open>self.x\<close>, \<^verbatim>\<open>self.B\<close> and \<^verbatim>\<open>self.m\<close>. \<open>cov_S n m kf\<close> is the matrix
  \<open>R + H\<cdot>P\<cdot>H\<^sup>T\<close> of such a filter.
\<close>

fun rows_of :: "ndarray \<Rightarrow> matrix" where
  "rows_of (Scalar a) = [[a]]"
| "rows_of (Arr2 c A) = A"

definition has_shape :: "nat \<Rightarrow> nat \<Rightarrow> ndarray \<Rightarrow> bool" where
  "has_shape r c a = (case a of Scalar v \<Rightarrow> False | Arr2 c' A \<Rightarrow> c' = c \<and> is_mat r c A)"

definition consistent :: "nat \<Rightarrow> nat \<Rightarrow> KalmanFilter \<Rightarrow> bool" where
  "consistent n m kf =
     (kf_n kf = n \<and> has_shape n n (kf_F kf) \<and> has_shape m n (kf_H kf) \<and>
      has_shape n n (kf_Q kf) \<and> has_shape m m (kf_R kf) \<and> has_shape n n (kf_P kf))"

definition cov_S :: "nat \<Rightarrow> nat \<Rightarrow> KalmanFilter \<Rightarrow> matrix" where
  "cov_S n m kf =
     mat_add (rows_of (kf_R kf))
       (mat_mul n m (rows_of (kf_H kf))
          (mat_mul n m (rows_of (kf_P kf)) (mat_T n (rows_of (kf_H kf)))))"

text \<open>\<open>wf_arr a\<close>: every row of a rank-2 array \<open>a\<close> has the length its shape gives.\<close>

definition wf_arr :: "ndarray \<Rightarrow> bool" where
  "wf_arr a = (case a of Scalar v \<Rightarrow> True | Arr2 c A \<Rightarrow> list_all (\<lambda>row. length row = c) A)"

text \<open>
  \<open>grows i w w'\<close>: from \<open>w\<close> to \<open>w'\<close> array objects were only added, and no instance but
  \<open>i\<close> had an attribute rebound.
\<close>

definition grows :: "nat \<Rightarrow> world \<Rightarrow> world \<Rightarrow> bool" where
  "grows i w w' =
     (length (insts w') = length (insts w) \<and>
      (\<forall>j. j \<noteq> i \<longrightarrow> insts w' ! j = insts w ! j) \<and>
      (\<exists>ys. arrays w' = arrays w @ ys) \<and> wf_world w')"

text \<open>\<open>ext w w'\<close>: array objects were added and no attribute of any instance was rebound.\<close>

definition ext :: "world \<Rightarrow> world \<Rightarrow> bool" where
  "ext w w' = (insts w' = insts w \<and> (\<exists>ys. arrays w' = arrays w @ ys))"

section \<open>Fixtures\<close>

text \<open>
  The model of \<^verbatim>\<open>KalmanExample\<close> (a falling ball observed by its height), and a
  two-state filter with a control input, used where a statement is run on an input.
\<close>

definition demo_F :: ndarray where
  "demo_F = Arr2 3 [[1, 1 / 60, 0], [0, 1, 1 / 60], [0, 0, 1]]"

definition demo_H :: ndarray where
  "demo_H = Arr2 3 [[1, 0, 0]]"

definition demo_Q :: ndarray where
  "demo_Q = Arr2 3 [[0.05, 0.05, 0], [0.05, 0.05, 0], [0, 0, 0]]"

definition demo_R :: ndarray where
  "demo_R = Arr2 1 [[0.5]]"

definition demo_x0 :: ndarray where
  "demo_x0 = Arr2 1 [[2000], [0], [9.81]]"

definition ctl_kf :: KalmanFilter where
  "ctl_kf = \<lparr> kf_n = 2, kf_m = 2,
              kf_F = Arr2 2 [[1, 1], [0, 1]], kf_H = Arr2 2 [[1, 0]],
              kf_B = Arr2 1 [[0], [1]],
              kf_Q = Arr2 2 [[1, 0], [0, 1]], kf_R = Arr2 1 [[1]],
              kf_P = Arr2 2 [[2, 0], [0, 2]], kf_x = Arr2 1 [[1], [1]] \<rparr>"

definition sing_kf :: KalmanFilter where
  \<comment> \<open>two measurements of the same coordinate by a noiseless sensor: \<open>R + H\<cdot>P\<cdot>H\<^sup>T\<close> is singular\<close>
  "sing_kf = \<lparr> kf_n = 2, kf_m = 2,
               kf_F = Arr2 2 [[1, 0], [0, 1]], kf_H = Arr2 2 [[1, 0], [1, 0]],
               kf_B = Scalar 0,
               kf_Q = Arr2 2 [[1, 0], [0, 1]], kf_R = Arr2 2 [[0, 0], [0, 0]],
               kf_P = Arr2 2 [[1, 0], [0, 1]], kf_x = Arr2 1 [[0], [0]] \<rparr>"

definition bad_kf :: KalmanFilter where
  \<comment> \<open>what the constructor returns for a two-state model given a \<open>3 \<times> 3\<close> matrix \<open>Q\<close>\<close>
  "bad_kf = \<lparr> kf_n = 2, kf_m = 2,
              kf_F = Arr2 2 [[1, 1], [0, 1]], kf_H = Arr2 2 [[1, 0]],
              kf_B = Scalar 0,
              kf_Q = Arr2 3 [[1, 0, 0], [0, 1, 0], [0, 0, 1]],
              kf_R = Arr2 1 [[1]],
              kf_P = Arr2 2 [[1, 0], [0, 1]], kf_x = Arr2 1 [[1], [1]] \<rparr>"

definition wide_kf :: KalmanFilter where
  \<comment> \<open>what the constructor returns for a \<open>3 \<times> 3\<close> matrix \<open>F\<close> with a two-state \<open>H\<close>, \<open>P\<close> and \<open>x0\<close>\<close>
  "wide_kf = \<lparr> kf_n = 3, kf_m = 2,
               kf_F = Arr2 3 [[1, 0, 0], [0, 1, 0], [0, 0, 1]], kf_H = Arr2 2 [[1, 0]],
               kf_B = Scalar 0,
               kf_Q = Arr2 3 [[1, 0, 0], [0, 1, 0], [0, 0, 1]],
               kf_R = Arr2 1 [[1]],
               kf_P = Arr2 2 [[1, 0], [0, 1]], kf_x = Arr2 1 [[1], [1]] \<rparr>"

definition demo_kf :: KalmanFilter where
  \<comment> \<open>\<^verbatim>\<open>KalmanFilter(F=F, H=H, Q=Q, R=R, x0=x0)\<close> of \<^verbatim>\<open>KalmanExample\<close>\<close>
  "demo_kf = \<lparr> kf_n = 3, kf_m = 3, kf_F = demo_F, kf_H = demo_H, kf_B = Scalar 0,
               kf_Q = demo_Q, kf_R = demo_R,
               kf_P = Arr2 3 [[1, 0, 0], [0, 1, 0], [0, 0, 1]], kf_x = demo_x0 \<rparr>"

text \<open>
  A world for the demo: the five arrays that \<^verbatim>\<open>KalmanExample\<close> passes to the constructor,
  the default control argument \<open>0\<close> and one measurement; \<open>demo_world2\<close> is the world after
  the constructor has run twice on the same five objects.
\<close>

definition demo_world :: world where
  "demo_world = \<lparr> arrays = [demo_F, demo_H, demo_Q, demo_R, demo_x0, Scalar 0, Scalar 1990],
                  insts = [] \<rparr>"

definition demo_world1 :: world where
  "demo_world1 = snd (init_h (Some 0) None (Some 1) (Some 2) (Some 3) (Some 4) None demo_world)"

definition demo_world2 :: world where
  "demo_world2 = snd (init_h (Some 0) None (Some 1) (Some 2) (Some 3) (Some 4) None demo_world1)"

section \<open>Facts about the matrix operations\<close>

lemma is_mat_row: "is_mat r c A \<Longrightarrow> i < r \<Longrightarrow> length (A ! i) = c"
  by (simp add: is_mat_def list_all_length)

lemma is_matI: "length A = r \<Longrightarrow> (\<And>i. i < r \<Longrightarrow> length (A ! i) = c) \<Longrightarrow> is_mat r c A"
  by (simp add: is_mat_def list_all_length)

lemma mat_eqI:
  assumes "is_mat r c A" "is_mat r c B"
    and "\<And>i j. i < r \<Longrightarrow> j < c \<Longrightarrow> A ! i ! j = B ! i ! j"
  shows "A = B"
proof (rule nth_equalityI)
  show "length A = length B" using assms(1,2) by (simp add: is_mat_def)
next
  fix i assume "i < length A"
  then have i: "i < r" using assms(1) by (simp add: is_mat_def)
  show "A ! i = B ! i"
  proof (rule nth_equalityI)
    show "length (A ! i) = length (B ! i)"
      using is_mat_row [OF assms(1) i] is_mat_row [OF assms(2) i] by simp
  next
    fix j assume "j < length (A ! i)"
    then have "j < c" using is_mat_row [OF assms(1) i] by simp
    then show "A ! i ! j = B ! i ! j" using assms(3) i by simp
  qed
qed

lemma length_mat_mul [simp]: "length (mat_mul k c A B) = length A"
  by (simp add: mat_mul_def)

lemma length_mat_T [simp]: "length (mat_T c A) = c"
  by (simp add: mat_T_def)

lemma length_eye [simp]: "length (eye k) = k"
  by (simp add: eye_def)

lemma mat_mul_nth:
  "i < length A \<Longrightarrow> j < c \<Longrightarrow> mat_mul k c A B ! i ! j = (\<Sum>l<k. A ! i ! l * B ! l ! j)"
  by (simp add: mat_mul_def)

lemma is_mat_mul: "length A = r \<Longrightarrow> is_mat r c (mat_mul k c A B)"
  by (simp add: mat_mul_def is_mat_def list_all_length)

lemma mat_T_nth: "j < c \<Longrightarrow> i < length A \<Longrightarrow> mat_T c A ! j ! i = A ! i ! j"
  by (simp add: mat_T_def)

lemma is_mat_T: "length A = r \<Longrightarrow> is_mat c r (mat_T c A)"
  by (simp add: mat_T_def is_mat_def list_all_length)

lemma mat_add_nth:
  "is_mat r c A \<Longrightarrow> is_mat r c B \<Longrightarrow> i < r \<Longrightarrow> j < c \<Longrightarrow>
   mat_add A B ! i ! j = A ! i ! j + B ! i ! j"
  by (simp add: mat_add_def is_mat_def list_all_length)

lemma mat_sub_nth:
  "is_mat r c A \<Longrightarrow> is_mat r c B \<Longrightarrow> i < r \<Longrightarrow> j < c \<Longrightarrow>
   mat_sub A B ! i ! j = A ! i ! j - B ! i ! j"
  by (simp add: mat_sub_def is_mat_def list_all_length)

lemma is_mat_add: "is_mat r c A \<Longrightarrow> is_mat r c B \<Longrightarrow> is_mat r c (mat_add A B)"
  by (simp add: mat_add_def is_mat_def list_all_length)


lemma is_mat_eye: "is_mat k k (eye k)"
  by (simp add: eye_def is_mat_def list_all_length)

lemma eye_nth: "i < k \<Longrightarrow> j < k \<Longrightarrow> eye k ! i ! j = (if i = j then 1 else 0)"
  by (simp add: eye_def)

text \<open>On two arrays of one shape, broadcasting is the entrywise operation.\<close>

lemma np_binop_same_shape:
  assumes "is_mat r c A" "is_mat r c B"
  shows "np_binop f (Arr2 c A) (Arr2 c B) = Inr (Arr2 c (map2 (map2 f) A B))"
proof -
  let ?g = "\<lambda>i j. f (A ! stretch r i ! stretch c j) (B ! stretch r i ! stretch c j)"
  have len: "length A = r" "length B = r" using assms by (simp_all add: is_mat_def)
  have "map (\<lambda>i. map (?g i) [0..<c]) [0..<r] = map2 (map2 f) A B"
  proof (rule nth_equalityI)
    show "length (map (\<lambda>i. map (?g i) [0..<c]) [0..<r]) = length (map2 (map2 f) A B)"
      using len by simp
  next
    fix i
    assume "i < length (map (\<lambda>i. map (?g i) [0..<c]) [0..<r])"
    then have i: "i < r" by simp
    have si: "stretch r i = i" using i by (auto simp: stretch_def)
    have la: "length (A ! i) = c" "length (B ! i) = c"
      using is_mat_row [OF assms(1) i] is_mat_row [OF assms(2) i] by simp_all
    have "map (?g i) [0..<c] = map2 f (A ! i) (B ! i)"
    proof (rule nth_equalityI)
      show "length (map (?g i) [0..<c]) = length (map2 f (A ! i) (B ! i))"
        using la by simp
    next
      fix j assume "j < length (map (?g i) [0..<c])"
      then have j: "j < c" by simp
      have sj: "stretch c j = j" using j by (auto simp: stretch_def)
      show "map (?g i) [0..<c] ! j = map2 f (A ! i) (B ! i) ! j"
        using j la si sj by simp
    qed
    then show "map (\<lambda>i. map (?g i) [0..<c]) [0..<r] ! i = map2 (map2 f) A B ! i"
      using i len by simp
  qed
  then show ?thesis using len by (simp add: bdim_def)
qed

lemma np_add_same_shape:
  "is_mat r c A \<Longrightarrow> is_mat r c B \<Longrightarrow> np_add (Arr2 c A) (Arr2 c B) = Inr (Arr2 c (mat_add A B))"
  unfolding np_add_def mat_add_def by (rule np_binop_same_shape)

lemma np_sub_same_shape:
  "is_mat r c A \<Longrightarrow> is_mat r c B \<Longrightarrow> np_sub (Arr2 c A) (Arr2 c B) = Inr (Arr2 c (mat_sub A B))"
  unfolding np_sub_def mat_sub_def by (rule np_binop_same_shape)

lemma np_dot_shapes:
  "is_mat k c B \<Longrightarrow> np_dot (Arr2 k A) (Arr2 c B) = Inr (Arr2 c (mat_mul k c A B))"
  by (simp add: is_mat_def)

section \<open>Correctness of the inversion\<close>

text \<open>
  Every step of the elimination replaces the rows by invertible linear combinations of
  them. Hence a linear functional vanishes on all rows after the run exactly when it
  did before, which carries the relation \<open>left = right \<cdot> A\<close> and the injectivity of
  the right half from \<open>[A | I]\<close> to the result.
\<close>

lemma gj_step_length: "gj_step j M = Some M' \<Longrightarrow> length M' = length M"
  by (auto simp: gj_step_def Let_def split: option.splits)

lemma gauss_jordan_length: "gauss_jordan k j M = Some M' \<Longrightarrow> length M' = length M"
proof (induction k arbitrary: j M)
  case 0
  then show ?case by simp
next
  case (Suc k)
  then show ?case by (auto split: option.splits dest: gj_step_length)
qed

lemma linalg_inv_shape:
  assumes "linalg_inv a = Inr b"
  shows "\<exists>c A B. a = Arr2 c A \<and> length A = c \<and> b = Arr2 c B \<and> length B = c"
proof (cases a)
  case (Scalar v)
  then show ?thesis using assms by simp
next
  case (Arr2 c A)
  then show ?thesis using assms
    by (auto split: if_splits option.splits dest!: gauss_jordan_length)
qed

lemma np_dot_rows:
  "length B = k \<Longrightarrow> np_dot (Arr2 k A) (Arr2 c B) = Inr (Arr2 c (mat_mul k c A B))"
  by simp

lemma find_upt_Some: "find Q [j..<n] = Some p \<Longrightarrow> j \<le> p \<and> p < n \<and> Q p"
  by (auto simp: find_Some_iff)

lemma find_upt_None: "find Q [j..<n] = None \<Longrightarrow> j \<le> i \<Longrightarrow> i < n \<Longrightarrow> \<not> Q i"
  by (auto simp: find_None_iff)

lemma gj_step_None: "gj_step j M = None \<Longrightarrow> j \<le> i \<Longrightarrow> i < length M \<Longrightarrow> M ! i ! j = 0"
  using find_upt_None [of "\<lambda>i. M ! i ! j \<noteq> 0" j "length M" i]
  by (auto simp: gj_step_def Let_def split: option.splits)

lemma gj_step_Some:
  assumes "gj_step j M = Some M'" "j < length M"
  obtains p where "j \<le> p" "p < length M" "M ! p ! j \<noteq> 0"
    and "length M' = length M"
    and "M' ! j = map (\<lambda>v. v / (M ! p ! j)) (M ! p)"
    and "\<And>i. i < length M \<Longrightarrow> i \<noteq> j \<Longrightarrow>
           M' ! i = map2 (\<lambda>a b. a - (if i = p then M ! j else M ! i) ! j * b)
                      (if i = p then M ! j else M ! i) (map (\<lambda>v. v / (M ! p ! j)) (M ! p))"
proof -
  from assms(1) obtain p where f: "find (\<lambda>i. M ! i ! j \<noteq> 0) [j..<length M] = Some p"
    by (auto simp: gj_step_def split: option.splits)
  then have p: "j \<le> p" "p < length M" "M ! p ! j \<noteq> 0"
    using find_upt_Some [OF f] by auto
  let ?M1 = "M[j := M ! p, p := M ! j]"
  have M1j: "?M1 ! j = M ! p" using assms(2) p by (cases "j = p") simp_all
  have M1i: "\<And>i. i < length M \<Longrightarrow> i \<noteq> j \<Longrightarrow> ?M1 ! i = (if i = p then M ! j else M ! i)"
    using p by (simp add: nth_list_update)
  have M': "M' = map (\<lambda>i. if i = j then map (\<lambda>v. v / (?M1 ! j ! j)) (?M1 ! j)
                  else map2 (\<lambda>a b. a - (?M1 ! i ! j) * b) (?M1 ! i) (map (\<lambda>v. v / (?M1 ! j ! j)) (?M1 ! j)))
                [0..<length M]"
    using assms(1) f by (simp add: gj_step_def Let_def)
  show thesis
  proof (rule that [OF p])
    show "length M' = length M" by (simp add: M')
    show "M' ! j = map (\<lambda>v. v / (M ! p ! j)) (M ! p)"
      using assms(2) by (simp add: M' M1j)
    show "\<And>i. i < length M \<Longrightarrow> i \<noteq> j \<Longrightarrow>
           M' ! i = map2 (\<lambda>a b. a - (if i = p then M ! j else M ! i) ! j * b)
                      (if i = p then M ! j else M ! i) (map (\<lambda>v. v / (M ! p ! j)) (M ! p))"
      by (simp add: M' M1j M1i del: list_update.simps)
  qed
qed

lemma gj_step_is_mat:
  assumes "gj_step j M = Some M'" "is_mat n w M" "j < n"
  shows "is_mat n w M'"
proof -
  have len: "length M = n" using assms(2) by (simp add: is_mat_def)
  from assms(1) assms(3) len obtain p where p: "p < length M"
    and l: "length M' = length M"
    and rj: "M' ! j = map (\<lambda>v. v / (M ! p ! j)) (M ! p)"
    and ri: "\<And>i. i < length M \<Longrightarrow> i \<noteq> j \<Longrightarrow>
           M' ! i = map2 (\<lambda>a b. a - (if i = p then M ! j else M ! i) ! j * b)
                      (if i = p then M ! j else M ! i) (map (\<lambda>v. v / (M ! p ! j)) (M ! p))"
    by (auto elim!: gj_step_Some)
  have row: "\<And>i. i < n \<Longrightarrow> length (M ! i) = w" using assms(2) by (rule is_mat_row)
  show ?thesis
  proof (rule is_matI)
    show "length M' = n" using l len by simp
  next
    fix i assume i: "i < n"
    show "length (M' ! i) = w"
    proof (cases "i = j")
      case True
      then show ?thesis using rj row p len by simp
    next
      case False
      then show ?thesis using ri [of i] i len row p assms(3) by simp
    qed
  qed
qed

lemma gj_step_rows_vanish:
  assumes "gj_step j M = Some M'" "is_mat n w M" "j < n" "row_linear w \<phi>"
  shows "rows_vanish n \<phi> M' \<longleftrightarrow> rows_vanish n \<phi> M"
proof -
  have len: "length M = n" using assms(2) by (simp add: is_mat_def)
  from assms(1) assms(3) len obtain p where p: "p < n" "M ! p ! j \<noteq> 0"
    and rj: "M' ! j = map (\<lambda>v. v / (M ! p ! j)) (M ! p)"
    and ri: "\<And>i. i < length M \<Longrightarrow> i \<noteq> j \<Longrightarrow>
           M' ! i = map2 (\<lambda>a b. a - (if i = p then M ! j else M ! i) ! j * b)
                      (if i = p then M ! j else M ! i) (map (\<lambda>v. v / (M ! p ! j)) (M ! p))"
    by (auto elim!: gj_step_Some)
  have row: "\<And>i. i < n \<Longrightarrow> length (M ! i) = w" using assms(2) by (rule is_mat_row)
  have scale: "\<And>a s. length a = w \<Longrightarrow> \<phi> (map (\<lambda>v. v / s) a) = \<phi> a / s"
    and comb: "\<And>a b s. length a = w \<Longrightarrow> length b = w \<Longrightarrow>
                 \<phi> (map2 (\<lambda>x y. x - s * y) a b) = \<phi> a - s * \<phi> b"
    using assms(4) by (auto simp: row_linear_def)
  have vj: "\<phi> (M' ! j) = \<phi> (M ! p) / (M ! p ! j)"
    using rj scale [OF row [OF p(1)]] by simp
  have vi: "\<phi> (M' ! i) = \<phi> (if i = p then M ! j else M ! i)
                          - (if i = p then M ! j else M ! i) ! j * (\<phi> (M ! p) / (M ! p ! j))"
    if "i < n" "i \<noteq> j" for i
  proof -
    let ?r = "if i = p then M ! j else M ! i"
    have "length ?r = w" using row that(1) assms(3) by simp
    moreover have "length (map (\<lambda>v. v / (M ! p ! j)) (M ! p)) = w" using row p(1) by simp
    ultimately have "\<phi> (map2 (\<lambda>x y. x - ?r ! j * y) ?r (map (\<lambda>v. v / (M ! p ! j)) (M ! p)))
                      = \<phi> ?r - ?r ! j * \<phi> (map (\<lambda>v. v / (M ! p ! j)) (M ! p))"
      by (rule comb)
    then show ?thesis using ri [of i] that len scale [OF row [OF p(1)]] by simp
  qed
  show ?thesis
  proof
    assume old: "rows_vanish n \<phi> M"
    then have z: "\<And>i. i < n \<Longrightarrow> \<phi> (M ! i) = 0" by (simp add: rows_vanish_def)
    show "rows_vanish n \<phi> M'"
      unfolding rows_vanish_def
    proof (intro allI impI)
      fix i assume i: "i < n"
      show "\<phi> (M' ! i) = 0"
      proof (cases "i = j")
        case True
        then show ?thesis using vj z [OF p(1)] by simp
      next
        case False
        then show ?thesis using vi [OF i False] z [OF p(1)] z [OF i] z [OF assms(3)] by simp
      qed
    qed
  next
    assume new: "rows_vanish n \<phi> M'"
    then have z: "\<And>i. i < n \<Longrightarrow> \<phi> (M' ! i) = 0" by (simp add: rows_vanish_def)
    have zp: "\<phi> (M ! p) = 0" using vj z [OF assms(3)] p(2) by simp
    have zj: "\<phi> (M ! j) = 0"
    proof (cases "p = j")
      case True
      then show ?thesis using zp by simp
    next
      case False
      then show ?thesis using vi [OF p(1) False] z [OF p(1)] zp by simp
    qed
    show "rows_vanish n \<phi> M"
      unfolding rows_vanish_def
    proof (intro allI impI)
      fix i assume i: "i < n"
      show "\<phi> (M ! i) = 0"
      proof (cases "i = j \<or> i = p")
        case True
        then show ?thesis using zp zj by auto
      next
        case False
        then show ?thesis using vi [OF i] z [OF i] zp by simp
      qed
    qed
  qed
qed

lemma gj_step_unit_cols:
  assumes "gj_step j M = Some M'" "is_mat n w M" "j < n" "j < w" "unit_cols n j M"
  shows "unit_cols n (Suc j) M'"
proof -
  have len: "length M = n" using assms(2) by (simp add: is_mat_def)
  from assms(1) assms(3) len obtain p where p: "j \<le> p" "p < n" "M ! p ! j \<noteq> 0"
    and rj: "M' ! j = map (\<lambda>v. v / (M ! p ! j)) (M ! p)"
    and ri: "\<And>i. i < length M \<Longrightarrow> i \<noteq> j \<Longrightarrow>
           M' ! i = map2 (\<lambda>a b. a - (if i = p then M ! j else M ! i) ! j * b)
                      (if i = p then M ! j else M ! i) (map (\<lambda>v. v / (M ! p ! j)) (M ! p))"
    by (auto elim!: gj_step_Some)
  have row: "\<And>i. i < n \<Longrightarrow> length (M ! i) = w" using assms(2) by (rule is_mat_row)
  have u: "\<And>i c. i < n \<Longrightarrow> c < j \<Longrightarrow> M ! i ! c = (if i = c then 1 else 0)"
    using assms(5) by (simp add: unit_cols_def)
  have ej: "M' ! j ! c = M ! p ! c / (M ! p ! j)" if "c < w" for c
    using rj row [OF p(2)] that by simp
  have ei: "M' ! i ! c = (if i = p then M ! j else M ! i) ! c
                         - (if i = p then M ! j else M ! i) ! j * (M ! p ! c / (M ! p ! j))"
    if "i < n" "i \<noteq> j" "c < w" for i c
    using ri [of i] that len row [OF p(2)] row [OF that(1)] row [OF assms(3)] by simp
  show ?thesis
    unfolding unit_cols_def
  proof (intro allI impI)
    fix i c assume i: "i < n" and c: "c < Suc j"
    have cw: "c < w" using c assms(4) by simp
    show "M' ! i ! c = (if i = c then 1 else 0)"
    proof (cases "c = j")
      case cj: True
      show ?thesis
      proof (cases "i = j")
        case True
        then show ?thesis using ej [OF cw] cj p(3) by simp
      next
        case False
        then show ?thesis using ei [OF i False cw] cj p(3) by simp
      qed
    next
      case False
      then have clt: "c < j" using c by simp
      have pc: "M ! p ! c = 0" using u [OF p(2) clt] p(1) clt by simp
      have jc: "M ! j ! c = 0" using u [OF assms(3) clt] clt by simp
      show ?thesis
      proof (cases "i = j")
        case True
        then show ?thesis using ej [OF cw] pc clt by simp
      next
        case False
        then show ?thesis using ei [OF i False cw] pc jc u [OF i clt] p(1) clt by auto
      qed
    qed
  qed
qed

lemma gauss_jordan_run:
  assumes "is_mat n w M" "j + k = n" "n \<le> w" "unit_cols n j M"
  shows "case gauss_jordan k j M of
           Some M' \<Rightarrow> is_mat n w M' \<and> unit_cols n n M' \<and>
             (\<forall>\<phi>. row_linear w \<phi> \<longrightarrow> (rows_vanish n \<phi> M' \<longleftrightarrow> rows_vanish n \<phi> M))
         | None \<Rightarrow> (\<exists>j' M'. j \<le> j' \<and> j' < n \<and> is_mat n w M' \<and> unit_cols n j' M' \<and>
             (\<forall>i. j' \<le> i \<longrightarrow> i < n \<longrightarrow> M' ! i ! j' = 0) \<and>
             (\<forall>\<phi>. row_linear w \<phi> \<longrightarrow> (rows_vanish n \<phi> M' \<longleftrightarrow> rows_vanish n \<phi> M)))"
  using assms
proof (induction k arbitrary: j M)
  case 0
  then show ?case by simp
next
  case (Suc k)
  have j: "j < n" "j < w" using Suc.prems(2,3) by simp_all
  have len: "length M = n" using Suc.prems(1) by (simp add: is_mat_def)
  show ?case
  proof (cases "gj_step j M")
    case None
    have "\<forall>i. j \<le> i \<longrightarrow> i < n \<longrightarrow> M ! i ! j = 0"
      using gj_step_None [OF None] len by simp
    then have "\<exists>j' M'. j \<le> j' \<and> j' < n \<and> is_mat n w M' \<and> unit_cols n j' M' \<and>
             (\<forall>i. j' \<le> i \<longrightarrow> i < n \<longrightarrow> M' ! i ! j' = 0) \<and>
             (\<forall>\<phi>. row_linear w \<phi> \<longrightarrow> (rows_vanish n \<phi> M' \<longleftrightarrow> rows_vanish n \<phi> M))"
      using j(1) Suc.prems(1,4) by (intro exI [of _ j] exI [of _ M]) simp
    then show ?thesis using None by simp
  next
    case (Some M1)
    have m1: "is_mat n w M1" by (rule gj_step_is_mat [OF Some Suc.prems(1) j(1)])
    have u1: "unit_cols n (Suc j) M1"
      by (rule gj_step_unit_cols [OF Some Suc.prems(1) j Suc.prems(4)])
    have v1: "\<And>\<phi>. row_linear w \<phi> \<Longrightarrow> rows_vanish n \<phi> M1 \<longleftrightarrow> rows_vanish n \<phi> M"
      by (rule gj_step_rows_vanish [OF Some Suc.prems(1) j(1)])
    have jk: "Suc j + k = n" using Suc.prems(2) by simp
    have IH: "case gauss_jordan k (Suc j) M1 of
           Some M' \<Rightarrow> is_mat n w M' \<and> unit_cols n n M' \<and>
             (\<forall>\<phi>. row_linear w \<phi> \<longrightarrow> (rows_vanish n \<phi> M' \<longleftrightarrow> rows_vanish n \<phi> M1))
         | None \<Rightarrow> (\<exists>j' M'. Suc j \<le> j' \<and> j' < n \<and> is_mat n w M' \<and> unit_cols n j' M' \<and>
             (\<forall>i. j' \<le> i \<longrightarrow> i < n \<longrightarrow> M' ! i ! j' = 0) \<and>
             (\<forall>\<phi>. row_linear w \<phi> \<longrightarrow> (rows_vanish n \<phi> M' \<longleftrightarrow> rows_vanish n \<phi> M1)))"
      by (rule Suc.IH [OF m1 jk Suc.prems(3) u1])
    show ?thesis
    proof (cases "gauss_jordan k (Suc j) M1")
      case None
      with IH obtain j' M' where "Suc j \<le> j'" "j' < n" "is_mat n w M'" "unit_cols n j' M'"
        "\<forall>i. j' \<le> i \<longrightarrow> i < n \<longrightarrow> M' ! i ! j' = 0"
        "\<forall>\<phi>. row_linear w \<phi> \<longrightarrow> (rows_vanish n \<phi> M' \<longleftrightarrow> rows_vanish n \<phi> M1)"
        by auto
      then have "\<exists>j' M'. j \<le> j' \<and> j' < n \<and> is_mat n w M' \<and> unit_cols n j' M' \<and>
             (\<forall>i. j' \<le> i \<longrightarrow> i < n \<longrightarrow> M' ! i ! j' = 0) \<and>
             (\<forall>\<phi>. row_linear w \<phi> \<longrightarrow> (rows_vanish n \<phi> M' \<longleftrightarrow> rows_vanish n \<phi> M))"
        using v1 by (intro exI [of _ j'] exI [of _ M']) simp
      then show ?thesis using None Some by simp
    next
      case (Some M2)
      with IH have "is_mat n w M2 \<and> unit_cols n n M2 \<and>
             (\<forall>\<phi>. row_linear w \<phi> \<longrightarrow> (rows_vanish n \<phi> M2 \<longleftrightarrow> rows_vanish n \<phi> M1))"
        by simp
      then show ?thesis using Some \<open>gj_step j M = Some M1\<close> v1 by simp
    qed
  qed
qed

lemma row_linear_rdot: "row_linear (n + n) (rdot n v)"
proof -
  have 1: "rdot n v (map2 (\<lambda>x y. x - s * y) a b) = rdot n v a - s * rdot n v b"
    if "length a = n + n" "length b = n + n" for a b s
  proof -
    have "(\<Sum>k<n. map2 (\<lambda>x y. x - s * y) a b ! (n + k) * v k)
          = (\<Sum>k<n. a ! (n + k) * v k - s * (b ! (n + k) * v k))"
      using that by (intro sum.cong) (simp_all add: algebra_simps)
    then show ?thesis by (simp add: rdot_def sum_subtractf sum_distrib_left)
  qed
  have 2: "rdot n v (map (\<lambda>x. x / s) a) = rdot n v a / s" if "length a = n + n" for a s
  proof -
    have "(\<Sum>k<n. map (\<lambda>x. x / s) a ! (n + k) * v k) = (\<Sum>k<n. a ! (n + k) * v k / s)"
      using that by (intro sum.cong) simp_all
    then show ?thesis by (simp add: rdot_def sum_divide_distrib)
  qed
  show ?thesis unfolding row_linear_def using 1 2 by blast
qed

lemma row_linear_lrel: "c < n \<Longrightarrow> row_linear (n + n) (lrel n A c)"
proof -
  assume c: "c < n"
  have 1: "lrel n A c (map2 (\<lambda>x y. x - s * y) a b) = lrel n A c a - s * lrel n A c b"
    if "length a = n + n" "length b = n + n" for a b s
  proof -
    have "(\<Sum>k<n. map2 (\<lambda>x y. x - s * y) a b ! (n + k) * A ! k ! c)
          = (\<Sum>k<n. a ! (n + k) * A ! k ! c - s * (b ! (n + k) * A ! k ! c))"
      using that by (intro sum.cong) (simp_all add: algebra_simps)
    then show ?thesis using that c
      by (simp add: lrel_def sum_subtractf sum_distrib_left algebra_simps)
  qed
  have 2: "lrel n A c (map (\<lambda>x. x / s) a) = lrel n A c a / s" if "length a = n + n" for a s
  proof -
    have "(\<Sum>k<n. map (\<lambda>x. x / s) a ! (n + k) * A ! k ! c) = (\<Sum>k<n. a ! (n + k) * A ! k ! c / s)"
      using that by (intro sum.cong) simp_all
    then show ?thesis using that c
      by (simp add: lrel_def sum_divide_distrib diff_divide_distrib)
  qed
  show ?thesis unfolding row_linear_def using 1 2 by blast
qed

text \<open>The matrix \<open>[A | I]\<close> the run starts from.\<close>

lemma aug_is_mat: "is_mat n n A \<Longrightarrow> is_mat n (n + n) (map2 (@) A (eye n))"
  by (rule is_matI) (simp_all add: is_mat_def list_all_length eye_def)

lemma aug_left: "is_mat n n A \<Longrightarrow> i < n \<Longrightarrow> c < n \<Longrightarrow> map2 (@) A (eye n) ! i ! c = A ! i ! c"
  by (simp add: is_mat_def list_all_length nth_append)

lemma aug_right:
  "is_mat n n A \<Longrightarrow> i < n \<Longrightarrow> k < n \<Longrightarrow>
   map2 (@) A (eye n) ! i ! (n + k) = (if i = k then 1 else 0)"
  by (simp add: is_mat_def list_all_length nth_append eye_def)

lemma aug_lrel: "is_mat n n A \<Longrightarrow> c < n \<Longrightarrow> rows_vanish n (lrel n A c) (map2 (@) A (eye n))"
  unfolding rows_vanish_def
proof (intro allI impI)
  fix i assume A: "is_mat n n A" and c: "c < n" and i: "i < n"
  have "(\<Sum>k<n. map2 (@) A (eye n) ! i ! (n + k) * A ! k ! c)
        = (\<Sum>k<n. if k = i then A ! k ! c else 0)"
    by (intro sum.cong) (auto simp: aug_right [OF A i])
  also have "\<dots> = A ! i ! c" using i by (simp add: sum.delta)
  finally show "lrel n A c (map2 (@) A (eye n) ! i) = 0"
    by (simp add: lrel_def aug_left [OF A i c])
qed

lemma aug_rdot:
  assumes A: "is_mat n n A" and v: "rows_vanish n (rdot n v) (map2 (@) A (eye n))"
    and k: "k < n"
  shows "v k = 0"
proof -
  have "(\<Sum>l<n. map2 (@) A (eye n) ! k ! (n + l) * v l) = (\<Sum>l<n. if l = k then v l else 0)"
    by (intro sum.cong) (auto simp: aug_right [OF A k])
  also have "\<dots> = v k" using k by (simp add: sum.delta)
  finally show ?thesis using v k by (simp add: rows_vanish_def rdot_def)
qed

lemma sum_sum_assoc:
  fixes a :: "nat \<Rightarrow> real"
  shows "(\<Sum>k<n. a k * (\<Sum>c<m. b k c * v c)) = (\<Sum>c<m. (\<Sum>k<n. a k * b k c) * v c)"
proof -
  have "(\<Sum>k<n. a k * (\<Sum>c<m. b k c * v c)) = (\<Sum>k<n. \<Sum>c<m. a k * b k c * v c)"
    by (simp add: sum_distrib_left mult.assoc)
  also have "\<dots> = (\<Sum>c<m. \<Sum>k<n. a k * b k c * v c)"
    by (rule sum.swap)
  also have "\<dots> = (\<Sum>c<m. (\<Sum>k<n. a k * b k c) * v c)"
    by (simp add: sum_distrib_right)
  finally show ?thesis .
qed

lemma mat_mul_eye_iff:
  assumes "length X = n"
  shows "mat_mul n n X A = eye n \<longleftrightarrow>
         (\<forall>i<n. \<forall>c<n. (\<Sum>l<n. X ! i ! l * A ! l ! c) = (if i = c then 1 else 0))"
proof
  assume e: "mat_mul n n X A = eye n"
  show "\<forall>i<n. \<forall>c<n. (\<Sum>l<n. X ! i ! l * A ! l ! c) = (if i = c then 1 else 0)"
  proof (intro allI impI)
    fix i c assume "i < n" "c < n"
    then show "(\<Sum>l<n. X ! i ! l * A ! l ! c) = (if i = c then 1 else 0)"
      using mat_mul_nth [of i X c n n A] eye_nth [of i n c] assms e by simp
  qed
next
  assume e: "\<forall>i<n. \<forall>c<n. (\<Sum>l<n. X ! i ! l * A ! l ! c) = (if i = c then 1 else 0)"
  show "mat_mul n n X A = eye n"
  proof (rule mat_eqI [of n n])
    show "is_mat n n (mat_mul n n X A)" using assms by (rule is_mat_mul)
    show "is_mat n n (eye n)" by (rule is_mat_eye)
    fix i j assume "i < n" "j < n"
    then show "mat_mul n n X A ! i ! j = eye n ! i ! j"
      using e assms by (simp add: mat_mul_nth eye_nth)
  qed
qed

lemma sum_delta_left:
  fixes f :: "nat \<Rightarrow> real"
  shows "i < n \<Longrightarrow> (\<Sum>l<n. (if i = l then 1 else 0) * f l) = f i"
proof -
  assume i: "i < n"
  have "(\<Sum>l<n. (if i = l then 1 else 0) * f l) = (\<Sum>l<n. if l = i then f l else 0)"
    by (intro sum.cong) auto
  then show ?thesis using i by (simp add: sum.delta)
qed

lemma sum_delta_right:
  fixes f :: "nat \<Rightarrow> real"
  shows "i < n \<Longrightarrow> (\<Sum>l<n. f l * (if l = i then 1 else 0)) = f i"
proof -
  assume i: "i < n"
  have "(\<Sum>l<n. f l * (if l = i then 1 else 0)) = (\<Sum>l<n. if l = i then f l else 0)"
    by (intro sum.cong) auto
  then show ?thesis using i by (simp add: sum.delta)
qed

lemma gauss_jordan_inverse:
  assumes A: "is_mat n n A"
    and gj: "gauss_jordan n 0 (map2 (@) A (eye n)) = Some M'"
  shows "is_mat n n (map (drop n) M')"
    and "\<forall>i<n. \<forall>c<n. (\<Sum>k<n. map (drop n) M' ! i ! k * A ! k ! c) = (if i = c then 1 else 0)"
    and "\<forall>i<n. \<forall>c<n. (\<Sum>k<n. A ! i ! k * map (drop n) M' ! k ! c) = (if i = c then 1 else 0)"
proof -
  let ?M0 = "map2 (@) A (eye n)"
  let ?B = "map (drop n) M'"
  have "unit_cols n 0 ?M0" by (simp add: unit_cols_def)
  from gauss_jordan_run [OF aug_is_mat [OF A] _ _ this, of n] gj
  have M': "is_mat n (n + n) M'" and u: "unit_cols n n M'"
    and lin: "\<And>\<phi>. row_linear (n + n) \<phi> \<Longrightarrow> rows_vanish n \<phi> M' \<longleftrightarrow> rows_vanish n \<phi> ?M0"
    by simp_all
  have lenM': "length M' = n" and rowM': "\<And>i. i < n \<Longrightarrow> length (M' ! i) = n + n"
    using M' by (simp_all add: is_mat_def list_all_length)
  have Bnth: "?B ! i ! k = M' ! i ! (n + k)" if "i < n" "k < n" for i k
    using that lenM' rowM' [OF that(1)] by simp
  show B: "is_mat n n ?B"
    by (rule is_matI) (simp_all add: lenM' rowM')
  have unit: "M' ! i ! c = (if i = c then 1 else 0)" if "i < n" "c < n" for i c
    using u that by (simp add: unit_cols_def)
  have BA: "(\<Sum>k<n. ?B ! i ! k * A ! k ! c) = (if i = c then 1 else 0)" if "i < n" "c < n" for i c
  proof -
    have "rows_vanish n (lrel n A c) M'"
      using lin [OF row_linear_lrel [OF that(2)]] aug_lrel [OF A that(2)] by simp
    then have "M' ! i ! c = (\<Sum>k<n. M' ! i ! (n + k) * A ! k ! c)"
      using that(1) by (simp add: rows_vanish_def lrel_def)
    also have "\<dots> = (\<Sum>k<n. ?B ! i ! k * A ! k ! c)"
      by (intro sum.cong) (simp_all add: Bnth [OF that(1)])
    finally show ?thesis using unit [OF that] by simp
  qed
  then show "\<forall>i<n. \<forall>c<n. (\<Sum>k<n. ?B ! i ! k * A ! k ! c) = (if i = c then 1 else 0)"
    by blast
  have AB: "(\<Sum>l<n. A ! k ! l * ?B ! l ! c) = (if k = c then 1 else 0)" if "k < n" "c < n" for k c
  proof -
    define v where "v = (\<lambda>k. (\<Sum>l<n. A ! k ! l * ?B ! l ! c) - (if k = c then 1 else 0))"
    have "rows_vanish n (rdot n v) M'"
      unfolding rows_vanish_def rdot_def
    proof (intro allI impI)
      fix i assume i: "i < n"
      have "(\<Sum>k<n. M' ! i ! (n + k) * v k) = (\<Sum>k<n. ?B ! i ! k * v k)"
        by (intro sum.cong) (simp_all add: Bnth [OF i])
      also have "\<dots> = (\<Sum>k<n. ?B ! i ! k * (\<Sum>l<n. A ! k ! l * ?B ! l ! c))
                       - (\<Sum>k<n. ?B ! i ! k * (if k = c then 1 else 0))"
        by (simp add: v_def right_diff_distrib sum_subtractf)
      also have "(\<Sum>k<n. ?B ! i ! k * (\<Sum>l<n. A ! k ! l * ?B ! l ! c))
                 = (\<Sum>l<n. (\<Sum>k<n. ?B ! i ! k * A ! k ! l) * ?B ! l ! c)"
        by (rule sum_sum_assoc)
      also have "\<dots> = (\<Sum>l<n. (if i = l then 1 else 0) * ?B ! l ! c)"
        by (intro sum.cong) (simp_all add: BA [OF i])
      also have "\<dots> = ?B ! i ! c" by (rule sum_delta_left [OF i])
      also have "(\<Sum>k<n. ?B ! i ! k * (if k = c then 1 else 0)) = ?B ! i ! c"
        by (rule sum_delta_right [OF that(2)])
      finally show "(\<Sum>k<n. M' ! i ! (n + k) * v k) = 0" by simp
    qed
    then have "rows_vanish n (rdot n v) ?M0"
      using lin [OF row_linear_rdot] by simp
    then have "v k = 0" using aug_rdot [OF A _ that(1)] by blast
    then show ?thesis by (simp add: v_def)
  qed
  then show "\<forall>i<n. \<forall>c<n. (\<Sum>k<n. A ! i ! k * ?B ! k ! c) = (if i = c then 1 else 0)"
    by blast
qed

lemma gauss_jordan_complete:
  assumes A: "is_mat n n A"
    and XA: "\<forall>i<n. \<forall>c<n. (\<Sum>l<n. X i l * A ! l ! c) = (if i = c then 1 else 0)"
  shows "gauss_jordan n 0 (map2 (@) A (eye n)) \<noteq> None"
proof
  let ?M0 = "map2 (@) A (eye n)"
  assume none: "gauss_jordan n 0 ?M0 = None"
  have "unit_cols n 0 ?M0" by (simp add: unit_cols_def)
  from gauss_jordan_run [OF aug_is_mat [OF A] _ _ this, of n] none
  obtain j M where j: "j < n" and M: "is_mat n (n + n) M" and u: "unit_cols n j M"
    and z: "\<forall>i. j \<le> i \<longrightarrow> i < n \<longrightarrow> M ! i ! j = 0"
    and lin: "\<forall>\<phi>. row_linear (n + n) \<phi> \<longrightarrow> (rows_vanish n \<phi> M \<longleftrightarrow> rows_vanish n \<phi> ?M0)"
    by auto
  define v where "v = (\<lambda>c. if c < j then - (M ! c ! j) else if c = j then 1 else 0)"
  have unit: "M ! i ! c = (if i = c then 1 else 0)" if "i < n" "c < j" for i c
    using u that by (simp add: unit_cols_def)
  have Lv: "(\<Sum>c<n. M ! i ! c * v c) = 0" if i: "i < n" for i
  proof -
    have "(\<Sum>c<n. M ! i ! c * v c)
          = (\<Sum>c<n. (if c = i then (if i < j then - (M ! i ! j) else 0) else 0)
                    + (if c = j then M ! i ! j else 0))"
    proof (intro sum.cong refl)
      fix c assume "c \<in> {..<n}"
      show "M ! i ! c * v c = (if c = i then (if i < j then - (M ! i ! j) else 0) else 0)
                    + (if c = j then M ! i ! j else 0)"
        using unit [OF i, of c] by (auto simp: v_def)
    qed
    also have "\<dots> = (if i < j then - (M ! i ! j) else 0) + M ! i ! j"
      using i j by (simp add: sum.distrib sum.delta)
    also have "\<dots> = 0" using z i by auto
    finally show ?thesis .
  qed
  define w where "w = (\<lambda>k. \<Sum>c<n. A ! k ! c * v c)"
  have rel: "M ! i ! c = (\<Sum>k<n. M ! i ! (n + k) * A ! k ! c)" if "i < n" "c < n" for i c
  proof -
    have "rows_vanish n (lrel n A c) M"
      using lin row_linear_lrel [OF that(2)] aug_lrel [OF A that(2)] by blast
    then show ?thesis using that(1) by (simp add: rows_vanish_def lrel_def)
  qed
  have "rows_vanish n (rdot n w) M"
    unfolding rows_vanish_def rdot_def
  proof (intro allI impI)
    fix i assume i: "i < n"
    have "(\<Sum>k<n. M ! i ! (n + k) * w k) = (\<Sum>c<n. (\<Sum>k<n. M ! i ! (n + k) * A ! k ! c) * v c)"
      unfolding w_def by (rule sum_sum_assoc)
    also have "\<dots> = (\<Sum>c<n. M ! i ! c * v c)"
      by (intro sum.cong) (simp_all add: rel [OF i])
    finally show "(\<Sum>k<n. M ! i ! (n + k) * w k) = 0" using Lv [OF i] by simp
  qed
  then have "rows_vanish n (rdot n w) ?M0" using lin row_linear_rdot by blast
  then have w0: "w k = 0" if "k < n" for k using aug_rdot [OF A _ that] by blast
  have "v j = (\<Sum>c<n. (if j = c then 1 else 0) * v c)"
    by (rule sum_delta_left [OF j, symmetric])
  also have "\<dots> = (\<Sum>c<n. (\<Sum>l<n. X j l * A ! l ! c) * v c)"
    using XA j by (intro sum.cong) simp_all
  also have "\<dots> = (\<Sum>l<n. X j l * (\<Sum>c<n. A ! l ! c * v c))"
    by (rule sum_sum_assoc [symmetric])
  also have "\<dots> = (\<Sum>l<n. X j l * w l)" by (simp add: w_def)
  also have "\<dots> = 0" using w0 by simp
  finally show False by (simp add: v_def)
qed

lemma linalg_inv_sound:
  assumes A: "is_mat n n A" and inv: "linalg_inv (Arr2 n A) = Inr b"
  shows "\<exists>B. b = Arr2 n B \<and> is_inverse n A B"
proof -
  have len: "length A = n" using A by (simp add: is_mat_def)
  from inv len obtain M' where gj: "gauss_jordan n 0 (map2 (@) A (eye n)) = Some M'"
    and b: "b = Arr2 n (map (drop n) M')"
    by (auto split: option.splits)
  note g = gauss_jordan_inverse [OF A gj]
  have "length (map (drop n) M') = n" using g(1) by (simp add: is_mat_def)
  then have "is_inverse n A (map (drop n) M')"
    unfolding is_inverse_def using g len by (simp add: mat_mul_eye_iff)
  then show ?thesis using b by blast
qed

lemma linalg_inv_complete:
  assumes A: "is_mat n n A" and X: "is_mat n n X" and XA: "mat_mul n n X A = eye n"
  shows "linalg_inv (Arr2 n A) = Inr (Arr2 n X)"
proof -
  have len: "length A = n" "length X = n" using A X by (simp_all add: is_mat_def)
  have xa: "\<forall>i<n. \<forall>c<n. (\<Sum>l<n. X ! i ! l * A ! l ! c) = (if i = c then 1 else 0)"
    using XA len by (simp add: mat_mul_eye_iff)
  then have "gauss_jordan n 0 (map2 (@) A (eye n)) \<noteq> None"
    by (rule gauss_jordan_complete [OF A])
  then obtain M' where gj: "gauss_jordan n 0 (map2 (@) A (eye n)) = Some M'" by blast
  let ?B = "map (drop n) M'"
  note g = gauss_jordan_inverse [OF A gj]
  have "X = ?B"
  proof (rule mat_eqI [OF X g(1)])
    fix i c assume i: "i < n" and c: "c < n"
    have "X ! i ! c = (\<Sum>l<n. X ! i ! l * (if l = c then 1 else 0))"
      by (rule sum_delta_right [OF c, symmetric])
    also have "\<dots> = (\<Sum>l<n. X ! i ! l * (\<Sum>k<n. A ! l ! k * ?B ! k ! c))"
      using g(3) c by (intro sum.cong) simp_all
    also have "\<dots> = (\<Sum>k<n. (\<Sum>l<n. X ! i ! l * A ! l ! k) * ?B ! k ! c)"
      by (rule sum_sum_assoc)
    also have "\<dots> = (\<Sum>k<n. (if i = k then 1 else 0) * ?B ! k ! c)"
      using xa i by (intro sum.cong) simp_all
    also have "\<dots> = ?B ! i ! c" by (rule sum_delta_left [OF i])
    finally show "X ! i ! c = ?B ! i ! c" .
  qed
  then show ?thesis using gj len by simp
qed

lemma linalg_inv_error: "linalg_inv a = Inl e \<Longrightarrow> e = LinAlgError"
  by (cases a) (auto split: if_splits option.splits)

lemma linalg_inv_fails_iff:
  assumes A: "is_mat n n A"
  shows "linalg_inv (Arr2 n A) = Inl LinAlgError \<longleftrightarrow> \<not> (\<exists>X. is_inverse n A X)"
proof
  assume f: "linalg_inv (Arr2 n A) = Inl LinAlgError"
  show "\<not> (\<exists>X. is_inverse n A X)"
  proof
    assume "\<exists>X. is_inverse n A X"
    then obtain X where "is_mat n n X" "mat_mul n n X A = eye n"
      by (auto simp: is_inverse_def)
    then have "linalg_inv (Arr2 n A) = Inr (Arr2 n X)" by (rule linalg_inv_complete [OF A])
    then show False using f by simp
  qed
next
  assume n: "\<not> (\<exists>X. is_inverse n A X)"
  show "linalg_inv (Arr2 n A) = Inl LinAlgError"
  proof (cases "linalg_inv (Arr2 n A)")
    case (Inl e)
    then show ?thesis using linalg_inv_error [OF Inl] by simp
  next
    case (Inr b)
    then show ?thesis using linalg_inv_sound [OF A Inr] n by blast
  qed
qed

section \<open>The steps of \<^verbatim>\<open>update\<close> on arrays of matching shapes\<close>

lemma has_shapeD: "has_shape r c a \<Longrightarrow> a = Arr2 c (rows_of a) \<and> is_mat r c (rows_of a)"
  by (cases a) (simp_all add: has_shape_def)

lemma has_shape_Arr2 [simp]: "has_shape r c (Arr2 c' A) \<longleftrightarrow> c' = c \<and> is_mat r c A"
  by (simp add: has_shape_def)


lemma PHt_computes:
  assumes H: "kf_H kf = Arr2 n H" "is_mat m n H"
    and P: "kf_P kf = Arr2 n P"
  shows "np_dot (kf_P kf) (np_T (kf_H kf)) = Inr (Arr2 m (mat_mul n m P (mat_T n H)))"
proof -
  have lenH: "length H = m" using H(2) by (simp add: is_mat_def)
  show ?thesis
    unfolding P H(1) np_T.simps lenH by (rule np_dot_rows) simp
qed

lemma innovation_cov_computes:
  assumes H: "kf_H kf = Arr2 n H" "is_mat m n H"
    and R: "kf_R kf = Arr2 m R" "is_mat m m R"
    and P: "kf_P kf = Arr2 n P" "is_mat n n P"
  shows "innovation_cov kf
           = Inr (Arr2 m (mat_add R (mat_mul n m H (mat_mul n m P (mat_T n H)))))"
    and "is_mat m m (mat_add R (mat_mul n m H (mat_mul n m P (mat_T n H))))"
proof -
  let ?PHt = "mat_mul n m P (mat_T n H)"
  have lenH: "length H = m" and lenP: "length P = n"
    using H(2) P(2) by (simp_all add: is_mat_def)
  have HPHt: "np_dot (kf_H kf) (Arr2 m ?PHt) = Inr (Arr2 m (mat_mul n m H ?PHt))"
    unfolding H(1) by (rule np_dot_rows) (simp add: lenP)
  have addR: "np_add (kf_R kf) (Arr2 m (mat_mul n m H ?PHt))
                = Inr (Arr2 m (mat_add R (mat_mul n m H ?PHt)))"
    unfolding R(1) by (rule np_add_same_shape [OF R(2)]) (simp add: is_mat_mul lenH)
  show "innovation_cov kf = Inr (Arr2 m (mat_add R (mat_mul n m H ?PHt)))"
    unfolding innovation_cov_def PHt_computes [OF H P(1)] bind_err_def sum.case HPHt addR ..
  show "is_mat m m (mat_add R (mat_mul n m H ?PHt))"
    by (rule is_mat_add [OF R(2)]) (simp add: is_mat_mul lenH)
qed

lemma kalman_gain_computes:
  assumes H: "kf_H kf = Arr2 n H" "is_mat m n H"
    and P: "kf_P kf = Arr2 n P"
  shows "kalman_gain kf S =
           (case linalg_inv S of
              Inl e \<Rightarrow> Inl e
            | Inr Si \<Rightarrow> np_dot (Arr2 m (mat_mul n m P (mat_T n H))) Si)"
  unfolding kalman_gain_def PHt_computes [OF H P] bind_err_def sum.case ..

lemma joseph_computes:
  assumes n: "kf_n kf = n"
    and H: "kf_H kf = Arr2 n H" "is_mat m n H"
    and R: "kf_R kf = Arr2 m R" "is_mat m m R"
    and P: "kf_P kf = Arr2 n P" "is_mat n n P"
    and K: "length K = n"
  shows "joseph kf (Arr2 m K) =
           Inr (Arr2 n (mat_add
                  (mat_mul n n (mat_mul n n (mat_sub (eye n) (mat_mul m n K H)) P)
                               (mat_T n (mat_sub (eye n) (mat_mul m n K H))))
                  (mat_mul m n (mat_mul m m K R) (mat_T m K))))"
proof -
  let ?J = "mat_sub (eye n) (mat_mul m n K H)"
  have lenH: "length H = m" and lenP: "length P = n" and lenR: "length R = m"
    using H(2) P(2) R(2) by (simp_all add: is_mat_def)
  have lenJ: "length ?J = n"
    by (simp add: mat_sub_def K)
  have KH: "np_dot (Arr2 m K) (kf_H kf) = Inr (Arr2 n (mat_mul m n K H))"
    using H(1) lenH by simp
  have IKH: "np_sub (np_eye n) (Arr2 n (mat_mul m n K H)) = Inr (Arr2 n ?J)"
    unfolding np_eye_def
    by (rule np_sub_same_shape [OF is_mat_eye]) (simp add: is_mat_mul K)
  have JP: "np_dot (Arr2 n ?J) (kf_P kf) = Inr (Arr2 n (mat_mul n n ?J P))"
    using P(1) lenP by simp
  have JPJt: "np_dot (Arr2 n (mat_mul n n ?J P)) (np_T (Arr2 n ?J))
                = Inr (Arr2 n (mat_mul n n (mat_mul n n ?J P) (mat_T n ?J)))"
    unfolding np_T.simps lenJ by (rule np_dot_rows) simp
  have KR: "np_dot (Arr2 m K) (kf_R kf) = Inr (Arr2 m (mat_mul m m K R))"
    using R(1) lenR by simp
  have KRKt: "np_dot (Arr2 m (mat_mul m m K R)) (np_T (Arr2 m K))
                = Inr (Arr2 n (mat_mul m n (mat_mul m m K R) (mat_T m K)))"
    unfolding np_T.simps K by (rule np_dot_rows) simp
  have fin: "np_add (Arr2 n (mat_mul n n (mat_mul n n ?J P) (mat_T n ?J)))
                    (Arr2 n (mat_mul m n (mat_mul m m K R) (mat_T m K)))
               = Inr (Arr2 n (mat_add (mat_mul n n (mat_mul n n ?J P) (mat_T n ?J))
                                      (mat_mul m n (mat_mul m m K R) (mat_T m K))))"
    by (rule np_add_same_shape [of n]) (simp_all add: is_mat_mul lenJ K)
  show ?thesis
    unfolding joseph_def Let_def n KH bind_err_def sum.case IKH JP JPJt KR KRKt fin ..
qed


lemma consistentD:
  assumes "consistent n m kf"
  shows "kf_n kf = n"
    and "kf_F kf = Arr2 n (rows_of (kf_F kf))" "is_mat n n (rows_of (kf_F kf))"
    and "kf_H kf = Arr2 n (rows_of (kf_H kf))" "is_mat m n (rows_of (kf_H kf))"
    and "kf_Q kf = Arr2 n (rows_of (kf_Q kf))" "is_mat n n (rows_of (kf_Q kf))"
    and "kf_R kf = Arr2 m (rows_of (kf_R kf))" "is_mat m m (rows_of (kf_R kf))"
    and "kf_P kf = Arr2 n (rows_of (kf_P kf))" "is_mat n n (rows_of (kf_P kf))"
  using assms has_shapeD unfolding consistent_def by blast+



section \<open>The exceptions a call can raise\<close>

lemma np_binop_error: "np_binop f a b = Inl e \<Longrightarrow> e = ValueError"
  by (cases a; cases b) (auto split: option.splits)

lemma np_dot_error: "np_dot a b = Inl e \<Longrightarrow> e = ValueError"
  by (cases a; cases b) (auto dest: np_binop_error split: if_splits)

lemma update_error:
  assumes "fst (update kf z) = Inl e"
  shows "e = ValueError \<or> e = LinAlgError"
proof -
  have inn: "\<And>e'. innovation kf z = Inl e' \<Longrightarrow> e' = ValueError"
    by (auto simp: innovation_def bind_err_def np_sub_def
             dest: np_binop_error np_dot_error split: sum.splits)
  have cov: "\<And>e'. innovation_cov kf = Inl e' \<Longrightarrow> e' = ValueError"
    by (auto simp: innovation_cov_def bind_err_def np_add_def
             dest: np_binop_error np_dot_error split: sum.splits)
  have gain: "\<And>S e'. kalman_gain kf S = Inl e' \<Longrightarrow> e' = ValueError \<or> e' = LinAlgError"
    by (auto simp: kalman_gain_def bind_err_def
             dest: linalg_inv_error np_dot_error split: sum.splits)
  have ux: "\<And>K y e'. update_x kf K y = Inl e' \<Longrightarrow> e' = ValueError"
    by (auto simp: update_x_def bind_err_def np_add_def
             dest: np_binop_error np_dot_error split: sum.splits)
  have jos: "\<And>kf' K e'. joseph kf' K = Inl e' \<Longrightarrow> e' = ValueError"
    by (auto simp: joseph_def Let_def bind_err_def np_add_def np_sub_def
             dest: np_binop_error np_dot_error split: sum.splits)
  show ?thesis
    using assms inn cov gain ux jos
    by (auto simp: update_def Let_def bind_err_def split: sum.splits prod.splits)
qed

lemma init_error: "init F B H Q R x0 P = Inl e \<Longrightarrow> e = ValueError \<or> e = IndexError"
proof -
  have s: "\<And>a e'. shape_1 a = Inl e' \<Longrightarrow> e' = IndexError"
    subgoal for a e' by (cases a) simp_all
    done
  assume "init F B H Q R x0 P = Inl e"
  then show ?thesis
    by (auto simp: init_def bind_err_def dest: s split: option.splits sum.splits)
qed

section \<open>The default \<open>R\<close> and the measurement dimension\<close>

text \<open>
  The gain has as many columns as \<open>H\<close> has rows, and the Joseph form multiplies it by
  \<open>R\<close>. With \<open>R\<close> an identity matrix of another size than the number of rows of \<open>H\<close>, no
  call of \<^verbatim>\<open>update\<close> returns, whatever the measurement, \<open>P\<close> and \<open>x\<close> are.
\<close>

lemma np_dot_Arr2_cols:
  assumes "np_dot a (Arr2 c B) = Inr r"
  shows "\<exists>M. r = Arr2 c M"
  using assms by (cases a) (auto split: if_splits)

lemma update_fails_with_default_R:
  assumes H: "kf_H kf = Arr2 n H" "length H = m"
    and R: "kf_R kf = np_eye k" and mk: "m \<noteq> k"
  shows "fst (update kf z) \<noteq> Inr ()"
proof
  assume ok: "fst (update kf z) = Inr ()"
  then obtain S K x' P' where g: "kalman_gain kf S = Inr K"
    and j: "joseph (kf\<lparr>kf_x := x'\<rparr>) K = Inr P'"
    by (auto simp: update_def Let_def bind_err_def split: sum.splits prod.splits)
  from g obtain PHt Si where 1: "np_dot (kf_P kf) (np_T (kf_H kf)) = Inr PHt"
    and 2: "linalg_inv S = Inr Si" and 3: "np_dot PHt Si = Inr K"
    by (auto simp: kalman_gain_def bind_err_def split: sum.splits)
  from 1 obtain M where PHt: "PHt = Arr2 m M"
    using np_dot_Arr2_cols [of "kf_P kf" m "mat_T n H"] H by auto
  from linalg_inv_shape [OF 2] obtain c B where Si: "Si = Arr2 c B" "length B = c" by auto
  from 3 PHt Si have K: "K = Arr2 m (mat_mul m m M B)"
    by (auto split: if_splits)
  from j obtain KR where "np_dot K (kf_R kf) = Inr KR"
    by (auto simp: joseph_def Let_def bind_err_def split: sum.splits)
  then show False using K R mk by (simp add: np_eye_def split: if_splits)
qed

section \<open>What a failing call leaves behind\<close>

lemma predict_P_computes:
  assumes F: "kf_F kf = Arr2 n F" "is_mat n n F"
    and P: "kf_P kf = Arr2 n P" "is_mat n n P"
    and Q: "kf_Q kf = Arr2 n Q" "is_mat n n Q"
  shows "predict_P kf = Inr (Arr2 n (mat_add (mat_mul n n (mat_mul n n F P) (mat_T n F)) Q))"
proof -
  have lenF: "length F = n" using F(2) by (simp add: is_mat_def)
  have FP: "np_dot (Arr2 n F) (Arr2 n P) = Inr (Arr2 n (mat_mul n n F P))"
    using P(2) by (rule np_dot_shapes)
  have FPFt: "np_dot (Arr2 n (mat_mul n n F P)) (np_T (Arr2 n F))
                = Inr (Arr2 n (mat_mul n n (mat_mul n n F P) (mat_T n F)))"
    unfolding np_T.simps lenF by (rule np_dot_shapes [OF is_mat_T [OF lenF]])
  have addQ: "np_add (Arr2 n (mat_mul n n (mat_mul n n F P) (mat_T n F))) (Arr2 n Q)
                = Inr (Arr2 n (mat_add (mat_mul n n (mat_mul n n F P) (mat_T n F)) Q))"
    by (rule np_add_same_shape [of n]) (simp_all add: is_mat_mul lenF Q(2))
  show ?thesis
    unfolding predict_P_def F(1) P(1) Q(1) FP bind_err_def sum.case FPFt addQ ..
qed

lemma predict_failure:
  assumes "fst (predict kf u) = Inl e"
  shows "snd (predict kf u) = kf\<lparr>kf_x := kf_x (snd (predict kf u))\<rparr>"
  using assms by (auto simp: predict_def Let_def split: sum.splits)

lemma update_failure:
  assumes "fst (update kf z) = Inl e"
  shows "snd (update kf z) = kf\<lparr>kf_x := kf_x (snd (update kf z))\<rparr>"
  using assms by (auto simp: update_def Let_def split: sum.splits prod.splits)

lemma predict_failure_consistent:
  assumes c: "consistent n m kf" and f: "fst (predict kf u) = Inl e"
  shows "snd (predict kf u) = kf"
proof (cases "predict_x kf u")
  case (Inl e')
  then show ?thesis by (simp add: predict_def)
next
  case (Inr x')
  note d = consistentD [OF c]
  have "predict_P (kf\<lparr>kf_x := x'\<rparr>)
          = Inr (Arr2 n (mat_add (mat_mul n n (mat_mul n n (rows_of (kf_F kf)) (rows_of (kf_P kf)))
                                            (mat_T n (rows_of (kf_F kf))))
                                 (rows_of (kf_Q kf))))"
    using d by (intro predict_P_computes) simp_all
  then show ?thesis using f Inr by (simp add: predict_def)
qed

lemma kalman_gain_shape:
  assumes H: "kf_H kf = Arr2 n H" "is_mat m n H"
    and P: "kf_P kf = Arr2 n P" "is_mat n n P"
    and g: "kalman_gain kf (Arr2 m S) = Inr K"
  shows "\<exists>Km. K = Arr2 m Km \<and> length Km = n"
proof (cases "linalg_inv (Arr2 m S)")
  case (Inl e)
  then show ?thesis using g unfolding kalman_gain_computes [OF H P(1)] by simp
next
  case (Inr Si)
  from linalg_inv_shape [OF Inr] obtain B where Si: "Si = Arr2 m B" "length B = m" by auto
  have "length P = n" using P(2) by (simp add: is_mat_def)
  then show ?thesis using g Inr Si unfolding kalman_gain_computes [OF H P(1)] by auto
qed

lemma update_failure_consistent:
  assumes c: "consistent n m kf" and f: "fst (update kf z) = Inl e"
  shows "snd (update kf z) = kf"
proof -
  note d = consistentD [OF c]
  let ?r = "bind_err (innovation kf z) (\<lambda>y.
            bind_err (innovation_cov kf) (\<lambda>S.
            bind_err (kalman_gain kf S) (\<lambda>K.
            bind_err (update_x kf K y) (\<lambda>x'. Inr (K, x')))))"
  show ?thesis
  proof (cases ?r)
    case (Inl e')
    then show ?thesis by (simp add: update_def)
  next
    case (Inr p)
    obtain K x' where p: "p = (K, x')" by (cases p)
    from Inr p obtain S where S: "innovation_cov kf = Inr S" and g: "kalman_gain kf S = Inr K"
      by (auto simp: bind_err_def split: sum.splits)
    have "S = Arr2 m (cov_S n m kf)"
      using S innovation_cov_computes(1) [OF d(4,5) d(8,9) d(10,11)] by (simp add: cov_S_def)
    with g obtain Km where K: "K = Arr2 m Km" "length Km = n"
      using kalman_gain_shape [OF d(4,5) d(10,11)] by blast
    have "\<exists>P'. joseph (kf\<lparr>kf_x := x'\<rparr>) (Arr2 m Km) = Inr P'"
      using joseph_computes [of "kf\<lparr>kf_x := x'\<rparr>" n "rows_of (kf_H kf)" m
              "rows_of (kf_R kf)" "rows_of (kf_P kf)" Km] d K(2)
      by simp
    then show ?thesis using f Inr p K(1) by (auto simp: update_def)
  qed
qed

section \<open>Prediction without a control matrix\<close>

lemma bdim_into: "r' = r \<or> r' = 1 \<Longrightarrow> bdim r r' = Some r"
  by (auto simp: bdim_def)

lemma stretch_less: "r' = r \<or> r' = 1 \<Longrightarrow> i < r \<Longrightarrow> stretch r' i < r'"
  by (auto simp: stretch_def)

lemma stretch_self: "i < r \<Longrightarrow> stretch r i = i"
  by (auto simp: stretch_def)

lemma np_add_zeros:
  assumes A: "is_mat r c A" and Z: "is_mat r' c' Z"
    and r: "r' = r \<or> r' = 1" and c: "c' = c \<or> c' = 1"
    and zero: "\<And>i j. i < r' \<Longrightarrow> j < c' \<Longrightarrow> Z ! i ! j = 0"
  shows "np_add (Arr2 c A) (Arr2 c' Z) = Inr (Arr2 c A)"
proof -
  let ?g = "\<lambda>i j. A ! stretch r i ! stretch c j + Z ! stretch r' i ! stretch c' j"
  have len: "length A = r" "length Z = r'" using A Z by (simp_all add: is_mat_def)
  have "map (\<lambda>i. map (?g i) [0..<c]) [0..<r] = A"
  proof (rule mat_eqI [OF _ A])
    show "is_mat r c (map (\<lambda>i. map (?g i) [0..<c]) [0..<r])"
      by (rule is_matI) simp_all
  next
    fix i j assume i: "i < r" and j: "j < c"
    have "Z ! stretch r' i ! stretch c' j = 0"
      by (rule zero [OF stretch_less [OF r i] stretch_less [OF c j]])
    then show "map (\<lambda>i. map (?g i) [0..<c]) [0..<r] ! i ! j = A ! i ! j"
      using i j by (simp add: stretch_self)
  qed
  then show ?thesis
    using len by (simp add: np_add_def bdim_into [OF r] bdim_into [OF c])
qed

lemma np_dot_zero_scalar:
  "np_dot (Scalar 0) (Arr2 c U) = Inr (Arr2 c (map (map (\<lambda>v. 0)) U))"
  by simp

lemma np_add_scalar_zero: "np_add (Arr2 c A) (Scalar 0) = Inr (Arr2 c A)"
  by (simp add: np_add_def map_idI)

lemma predict_x_without_B:
  assumes B: "kf_B kf = Scalar 0"
    and F: "kf_F kf = Arr2 n F" "is_mat n n F"
    and x: "kf_x kf = Arr2 1 x" "is_mat n 1 x"
    and u: "(\<exists>a. u = Scalar a) \<or> has_shape n 1 u \<or> has_shape 1 1 u"
  shows "predict_x kf u = Inr (Arr2 1 (mat_mul n 1 F x))"
proof -
  have lenF: "length F = n" using F(2) by (simp add: is_mat_def)
  have Fx: "np_dot (kf_F kf) (kf_x kf) = Inr (Arr2 1 (mat_mul n 1 F x))"
    unfolding F(1) x(1) by (rule np_dot_shapes [OF x(2)])
  have isFx: "is_mat n 1 (mat_mul n 1 F x)" by (rule is_mat_mul [OF lenF])
  have "\<exists>Bu. np_dot (Scalar 0) u = Inr Bu \<and> np_add (Arr2 1 (mat_mul n 1 F x)) Bu
                                              = Inr (Arr2 1 (mat_mul n 1 F x))"
  proof -
    consider a where "u = Scalar a" | r' U where "u = Arr2 1 U" "is_mat r' 1 U" "r' = n \<or> r' = 1"
      using u by (cases u) (auto simp: has_shape_def)
    then show ?thesis
    proof cases
      case 1
      then show ?thesis by (simp add: np_add_scalar_zero)
    next
      case 2
      have Z: "is_mat r' 1 (map (map (\<lambda>v. 0::real)) U)"
        using 2(2) by (simp add: is_mat_def list_all_length)
      have "np_add (Arr2 1 (mat_mul n 1 F x)) (Arr2 1 (map (map (\<lambda>v. 0)) U))
              = Inr (Arr2 1 (mat_mul n 1 F x))"
      proof (rule np_add_zeros [OF isFx Z 2(3)])
        show "(1::nat) = 1 \<or> (1::nat) = 1" by simp
      next
        fix i j assume "i < r'" "j < (1::nat)"
        then show "map (map (\<lambda>v. 0::real)) U ! i ! j = 0"
          using 2(2) by (simp add: is_mat_def list_all_length)
      qed
      then show ?thesis unfolding 2(1) np_dot_zero_scalar by blast
    qed
  qed
  then show ?thesis
    unfolding predict_x_def Fx B bind_err_def by auto
qed

section \<open>Symmetric arrays\<close>

text \<open>An array is symmetric when it equals its transpose; such an array is square.\<close>

lemma sym_Arr2D:
  assumes "np_T (Arr2 c A) = Arr2 c A"
  shows "is_mat c c A" and "\<And>i j. i < c \<Longrightarrow> j < c \<Longrightarrow> A ! i ! j = A ! j ! i"
proof -
  have len: "length A = c" and T: "mat_T c A = A" using assms by simp_all
  have row: "A ! i = map (\<lambda>row. row ! i) A" if "i < c" for i
  proof -
    have "A ! i = mat_T c A ! i" by (simp add: T)
    then show ?thesis using that by (simp add: mat_T_def)
  qed
  show "is_mat c c A"
  proof (rule is_matI [OF len])
    fix i assume "i < c"
    then have "length (A ! i) = length (map (\<lambda>row. row ! i) A)" using row by simp
    then show "length (A ! i) = c" using len by simp
  qed
  fix i j assume i: "i < c" and j: "j < c"
  have "A ! i ! j = map (\<lambda>row. row ! i) A ! j" using row [OF i] by simp
  then show "A ! i ! j = A ! j ! i" using j len by simp
qed

lemma sym_Arr2I:
  assumes "is_mat c c A" and "\<And>i j. i < c \<Longrightarrow> j < c \<Longrightarrow> A ! i ! j = A ! j ! i"
  shows "np_T (Arr2 c A) = Arr2 c A"
proof -
  have len: "length A = c" using assms(1) by (simp add: is_mat_def)
  have "mat_T c A = A"
  proof (rule mat_eqI [OF is_mat_T [OF len] assms(1)])
    fix i j assume "i < c" "j < c"
    then show "mat_T c A ! i ! j = A ! i ! j"
      using assms(2) len by (simp add: mat_T_nth)
  qed
  then show ?thesis using len by simp
qed

lemma sym_map:
  assumes "np_T (Arr2 c A) = Arr2 c A"
  shows "np_T (Arr2 c (map (map h) A)) = Arr2 c (map (map h) A)"
proof (rule sym_Arr2I)
  note s = sym_Arr2D [OF assms]
  have len: "length A = c" and row: "\<And>i. i < c \<Longrightarrow> length (A ! i) = c"
    using s(1) by (simp_all add: is_mat_def list_all_length)
  show "is_mat c c (map (map h) A)"
    by (rule is_matI) (simp_all add: len row)
  fix i j assume "i < c" "j < c"
  then show "map (map h) A ! i ! j = map (map h) A ! j ! i"
    using s(2) [of i j] len row by simp
qed

lemma bdim_stretch:
  "bdim a b = Some k \<Longrightarrow> i < k \<Longrightarrow> stretch a i < a \<and> stretch b i < b"
  by (auto simp: bdim_def stretch_def split: if_splits)

lemma sym_binop:
  assumes a: "np_T a = a" and b: "np_T b = b" and r: "np_binop h a b = Inr r"
  shows "np_T r = r"
proof (cases a)
  case sa: (Scalar s)
  show ?thesis
  proof (cases b)
    case (Scalar t)
    then show ?thesis using r sa by auto
  next
    case (Arr2 c B)
    then have "r = Arr2 c (map (map (h s)) B)" using r sa by simp
    then show ?thesis using sym_map [of c B "h s"] b Arr2 by simp
  qed
next
  case aa: (Arr2 cA A)
  show ?thesis
  proof (cases b)
    case (Scalar t)
    then have "r = Arr2 cA (map (map (\<lambda>v. h v t)) A)" using r aa by simp
    then show ?thesis using sym_map [of cA A "\<lambda>v. h v t"] a aa by simp
  next
    case (Arr2 cB B)
    note sA = sym_Arr2D [OF a [unfolded aa]] and sB = sym_Arr2D [OF b [unfolded Arr2]]
    have lenA: "length A = cA" and lenB: "length B = cB"
      using sA(1) sB(1) by (simp_all add: is_mat_def)
    from r aa Arr2 lenA lenB obtain k where k: "bdim cA cB = Some k"
      and res: "r = Arr2 k (map (\<lambda>i. map (\<lambda>j. h (A ! stretch cA i ! stretch cA j)
                                              (B ! stretch cB i ! stretch cB j)) [0..<k]) [0..<k])"
      by (auto split: option.splits)
    show ?thesis
      unfolding res
    proof (rule sym_Arr2I)
      show "is_mat k k (map (\<lambda>i. map (\<lambda>j. h (A ! stretch cA i ! stretch cA j)
                                           (B ! stretch cB i ! stretch cB j)) [0..<k]) [0..<k])"
        by (rule is_matI) simp_all
      fix i j assume i: "i < k" and j: "j < k"
      note bi = bdim_stretch [OF k i] and bj = bdim_stretch [OF k j]
      have "A ! stretch cA i ! stretch cA j = A ! stretch cA j ! stretch cA i"
        using sA(2) bi bj by blast
      moreover have "B ! stretch cB i ! stretch cB j = B ! stretch cB j ! stretch cB i"
        using sB(2) bi bj by blast
      ultimately show "map (\<lambda>i. map (\<lambda>j. h (A ! stretch cA i ! stretch cA j)
                                           (B ! stretch cB i ! stretch cB j)) [0..<k]) [0..<k] ! i ! j
            = map (\<lambda>i. map (\<lambda>j. h (A ! stretch cA i ! stretch cA j)
                                           (B ! stretch cB i ! stretch cB j)) [0..<k]) [0..<k] ! j ! i"
        using i j by simp
    qed
  qed
qed

lemma congruence_sum:
  fixes a b :: "nat \<Rightarrow> real"
  assumes "\<And>k l. k < c \<Longrightarrow> l < c \<Longrightarrow> p k l = p l k"
  shows "(\<Sum>l<c. (\<Sum>k<c. a k * p k l) * b l) = (\<Sum>l<c. (\<Sum>k<c. b k * p k l) * a l)"
proof -
  have "(\<Sum>l<c. (\<Sum>k<c. a k * p k l) * b l) = (\<Sum>l<c. \<Sum>k<c. a k * p k l * b l)"
    by (simp add: sum_distrib_right)
  also have "\<dots> = (\<Sum>k<c. \<Sum>l<c. a k * p k l * b l)"
    by (rule sum.swap)
  also have "\<dots> = (\<Sum>k<c. \<Sum>l<c. b l * p l k * a k)"
    using assms by (intro sum.cong refl) (simp add: mult_ac)
  also have "\<dots> = (\<Sum>k<c. (\<Sum>l<c. b l * p l k) * a k)"
    by (simp add: sum_distrib_right)
  finally show ?thesis .
qed

lemma sym_congruence:
  assumes f: "wf_arr f" and p: "np_T p = p"
    and fp: "np_dot f p = Inr fp" and g: "np_dot fp (np_T f) = Inr g"
  shows "np_T g = g"
proof (cases f)
  case (Scalar s)
  have sf: "np_T f = f" using Scalar by simp
  have 1: "np_binop (*) f p = Inr fp" using fp Scalar by simp
  have sfp: "np_T fp = fp" by (rule sym_binop [OF sf p 1])
  have 2: "np_binop (*) fp f = Inr g" using g Scalar by (cases fp) simp_all
  show ?thesis by (rule sym_binop [OF sfp sf 2])
next
  case fa: (Arr2 c F)
  have F: "is_mat (length F) c F" using f fa by (simp add: wf_arr_def is_mat_def)
  let ?r = "length F"
  show ?thesis
  proof (cases p)
    case (Scalar q)
    let ?G = "map (map (\<lambda>v. v * q)) F"
    have fpe: "fp = Arr2 c ?G" using fp fa Scalar by simp
    have ge: "g = Arr2 ?r (mat_mul c ?r ?G (mat_T c F))" using g fa fpe by simp
    show ?thesis
      unfolding ge
    proof (rule sym_Arr2I)
      show "is_mat ?r ?r (mat_mul c ?r ?G (mat_T c F))" by (rule is_mat_mul) simp
      fix i j assume i: "i < ?r" and j: "j < ?r"
      have Gn: "?G ! a ! l = F ! a ! l * q" if "a < ?r" "l < c" for a l
        using that is_mat_row [OF F that(1)] by simp
      have e: "mat_mul c ?r ?G (mat_T c F) ! a ! b = (\<Sum>l<c. ?G ! a ! l * mat_T c F ! l ! b)"
        if "a < ?r" "b < ?r" for a b
        by (rule mat_mul_nth) (use that in simp_all)
      have s1: "(\<Sum>l<c. ?G ! i ! l * mat_T c F ! l ! j) = (\<Sum>l<c. F ! i ! l * q * F ! j ! l)"
      proof (rule sum.cong [OF refl])
        fix l assume "l \<in> {..<c}"
        then have l: "l < c" by simp
        show "?G ! i ! l * mat_T c F ! l ! j = F ! i ! l * q * F ! j ! l"
          unfolding Gn [OF i l] mat_T_nth [OF l j] ..
      qed
      have s2: "(\<Sum>l<c. ?G ! j ! l * mat_T c F ! l ! i) = (\<Sum>l<c. F ! i ! l * q * F ! j ! l)"
      proof (rule sum.cong [OF refl])
        fix l assume "l \<in> {..<c}"
        then have l: "l < c" by simp
        show "?G ! j ! l * mat_T c F ! l ! i = F ! i ! l * q * F ! j ! l"
          unfolding Gn [OF j l] mat_T_nth [OF l i] by (simp add: mult_ac)
      qed
      show "mat_mul c ?r ?G (mat_T c F) ! i ! j = mat_mul c ?r ?G (mat_T c F) ! j ! i"
        unfolding e [OF i j] e [OF j i] s1 s2 ..
    qed
  next
    case (Arr2 cP Pm)
    note sP = sym_Arr2D [OF p [unfolded Arr2]]
    have lenP: "length Pm = cP" using sP(1) by (simp add: is_mat_def)
    have cc: "c = cP" using fp fa Arr2 lenP by (auto split: if_splits)
    have fpe: "fp = Arr2 c (mat_mul c c F Pm)" using fp fa Arr2 lenP cc by simp
    have ge: "g = Arr2 ?r (mat_mul c ?r (mat_mul c c F Pm) (mat_T c F))"
      using g fa fpe by simp
    show ?thesis
      unfolding ge
    proof (rule sym_Arr2I)
      show "is_mat ?r ?r (mat_mul c ?r (mat_mul c c F Pm) (mat_T c F))"
        by (rule is_mat_mul) simp
      fix i j assume i: "i < ?r" and j: "j < ?r"
      have e: "mat_mul c ?r (mat_mul c c F Pm) (mat_T c F) ! a ! b
               = (\<Sum>l<c. (\<Sum>k<c. F ! a ! k * Pm ! k ! l) * F ! b ! l)"
        if "a < ?r" "b < ?r" for a b
      proof -
        have "mat_mul c ?r (mat_mul c c F Pm) (mat_T c F) ! a ! b
              = (\<Sum>l<c. mat_mul c c F Pm ! a ! l * mat_T c F ! l ! b)"
          using that by (simp add: mat_mul_nth)
        also have "\<dots> = (\<Sum>l<c. (\<Sum>k<c. F ! a ! k * Pm ! k ! l) * F ! b ! l)"
          using that by (intro sum.cong refl) (simp add: mat_mul_nth mat_T_nth)
        finally show ?thesis .
      qed
      have "(\<Sum>l<c. (\<Sum>k<c. F ! i ! k * Pm ! k ! l) * F ! j ! l)
            = (\<Sum>l<c. (\<Sum>k<c. F ! j ! k * Pm ! k ! l) * F ! i ! l)"
        by (rule congruence_sum) (use sP(2) cc in simp)
      then show "mat_mul c ?r (mat_mul c c F Pm) (mat_T c F) ! i ! j
                 = mat_mul c ?r (mat_mul c c F Pm) (mat_T c F) ! j ! i"
        using e [OF i j] e [OF j i] by simp
    qed
  qed
qed

lemma predict_P_symmetric:
  assumes F: "wf_arr (kf_F kf)" and P: "np_T (kf_P kf) = kf_P kf"
    and Q: "np_T (kf_Q kf) = kf_Q kf" and r: "predict_P kf = Inr P'"
  shows "np_T P' = P'"
proof -
  from r obtain FP g where 1: "np_dot (kf_F kf) (kf_P kf) = Inr FP"
    and 2: "np_dot FP (np_T (kf_F kf)) = Inr g" and 3: "np_add g (kf_Q kf) = Inr P'"
    by (auto simp: predict_P_def bind_err_def split: sum.splits)
  have "np_T g = g" by (rule sym_congruence [OF F P 1 2])
  then show ?thesis using Q 3 unfolding np_add_def by (rule sym_binop)
qed

section \<open>The methods on objects and on attribute values\<close>

lemma wf_worldD: "wf_world w \<Longrightarrow> i < length (insts w) \<Longrightarrow> refs_ok w (insts w ! i)"
  by (simp add: wf_world_def list_all_length)

lemma grows_refl: "wf_world w \<Longrightarrow> grows i w w"
  by (simp add: grows_def)

lemma grows_arrays: "grows i w w' \<Longrightarrow> r < length (arrays w) \<Longrightarrow> arrays w' ! r = arrays w ! r"
  by (auto simp: grows_def nth_append)

lemma grows_length: "grows i w w' \<Longrightarrow> length (arrays w) \<le> length (arrays w')"
  by (auto simp: grows_def)

lemma grows_view_other:
  assumes "grows i w w'" "wf_world w" "j \<noteq> i" "j < length (insts w)"
  shows "view w' j = view w j"
proof -
  have ob: "insts w' ! j = insts w ! j" using assms(1,3) by (simp add: grows_def)
  have "refs_ok w (insts w ! j)" by (rule wf_worldD [OF assms(2,4)])
  then show ?thesis
    using grows_arrays [OF assms(1)] by (simp add: view_def ob refs_ok_def Let_def)
qed

text \<open>Storing a value as a new object and binding an attribute of instance \<open>i\<close> to it.\<close>

lemma assign_x:
  fixes a :: ndarray
  assumes wf: "wf_world w" and i: "i < length (insts w)"
    and w2: "w2 = set_attr i (\<lambda>ob. ob\<lparr>o_x := fst (new_array a w)\<rparr>) (snd (new_array a w))"
  shows "grows i w w2" and "view w2 i = (view w i)\<lparr>kf_x := a\<rparr>"
proof -
  have ok: "refs_ok w (insts w ! i)" by (rule wf_worldD [OF wf i])
  have arr: "arrays w2 = arrays w @ [a]"
    by (simp add: w2 new_array_def set_attr_def)
  have ins: "insts w2 = (insts w)[i := (insts w ! i)\<lparr>o_x := length (arrays w)\<rparr>]"
    by (simp add: w2 new_array_def set_attr_def)
  have "wf_world w2"
    unfolding wf_world_def list_all_length
  proof (intro allI impI)
    fix j assume "j < length (insts w2)"
    then have j: "j < length (insts w)" by (simp add: ins)
    have "refs_ok w (insts w ! j)" by (rule wf_worldD [OF wf j])
    then show "refs_ok w2 (insts w2 ! j)"
      using j by (cases "j = i") (auto simp: refs_ok_def arr ins)
  qed
  then show "grows i w w2"
    by (simp add: grows_def arr ins)
  show "view w2 i = (view w i)\<lparr>kf_x := a\<rparr>"
    using i ok by (simp add: view_def arr ins refs_ok_def Let_def nth_append)
qed

lemma assign_P:
  fixes a :: ndarray
  assumes wf: "wf_world w" and i: "i < length (insts w)"
    and w2: "w2 = set_attr i (\<lambda>ob. ob\<lparr>o_P := fst (new_array a w)\<rparr>) (snd (new_array a w))"
  shows "grows i w w2" and "view w2 i = (view w i)\<lparr>kf_P := a\<rparr>"
proof -
  have ok: "refs_ok w (insts w ! i)" by (rule wf_worldD [OF wf i])
  have arr: "arrays w2 = arrays w @ [a]"
    by (simp add: w2 new_array_def set_attr_def)
  have ins: "insts w2 = (insts w)[i := (insts w ! i)\<lparr>o_P := length (arrays w)\<rparr>]"
    by (simp add: w2 new_array_def set_attr_def)
  have "wf_world w2"
    unfolding wf_world_def list_all_length
  proof (intro allI impI)
    fix j assume "j < length (insts w2)"
    then have j: "j < length (insts w)" by (simp add: ins)
    have "refs_ok w (insts w ! j)" by (rule wf_worldD [OF wf j])
    then show "refs_ok w2 (insts w2 ! j)"
      using j by (cases "j = i") (auto simp: refs_ok_def arr ins)
  qed
  then show "grows i w w2"
    by (simp add: grows_def arr ins)
  show "view w2 i = (view w i)\<lparr>kf_P := a\<rparr>"
    using i ok by (simp add: view_def arr ins refs_ok_def Let_def nth_append)
qed

lemma grows_trans: "grows i w w1 \<Longrightarrow> grows i w1 w2 \<Longrightarrow> grows i w w2"
  by (auto simp: grows_def)

lemma predict_h_sim:
  assumes wf: "wf_world w" and i: "i < length (insts w)"
  shows "grows i w (snd (predict_h i u w))"
    and "view (snd (predict_h i u w)) i = snd (predict (view w i) (arrays w ! u))"
proof -
  have "grows i w (snd (predict_h i u w)) \<and>
        view (snd (predict_h i u w)) i = snd (predict (view w i) (arrays w ! u))"
  proof (cases "predict_x (view w i) (arrays w ! u)")
    case (Inl e)
    then show ?thesis using wf by (simp add: predict_h_def predict_def grows_refl)
  next
    case (Inr x')
    define w2 where "w2 = set_attr i (\<lambda>ob. ob\<lparr>o_x := fst (new_array x' w)\<rparr>) (snd (new_array x' w))"
    have g2: "grows i w w2" and v2: "view w2 i = (view w i)\<lparr>kf_x := x'\<rparr>"
      by (rule assign_x [OF wf i w2_def])+
    have wf2: "wf_world w2" and i2: "i < length (insts w2)"
      using g2 i by (simp_all add: grows_def)
    show ?thesis
    proof (cases "predict_P ((view w i)\<lparr>kf_x := x'\<rparr>)")
      case (Inl e)
      then have "snd (predict_h i u w) = w2"
        using Inr v2 by (simp add: predict_h_def w2_def split_beta Let_def)
      then show ?thesis using g2 v2 Inr Inl by (simp add: predict_def)
    next
      case P: (Inr P')
      define w4 where "w4 = set_attr i (\<lambda>ob. ob\<lparr>o_P := fst (new_array P' w2)\<rparr>) (snd (new_array P' w2))"
      have g4: "grows i w2 w4" and v4: "view w4 i = (view w2 i)\<lparr>kf_P := P'\<rparr>"
        by (rule assign_P [OF wf2 i2 w4_def])+
      have "snd (predict_h i u w) = w4"
        using Inr P v2 by (simp add: predict_h_def w2_def w4_def split_beta Let_def)
      then show ?thesis
        using grows_trans [OF g2 g4] v4 v2 Inr P by (simp add: predict_def)
    qed
  qed
  then show "grows i w (snd (predict_h i u w))"
    and "view (snd (predict_h i u w)) i = snd (predict (view w i) (arrays w ! u))"
    by simp_all
qed

lemma update_h_sim:
  assumes wf: "wf_world w" and i: "i < length (insts w)"
  shows "grows i w (snd (update_h i z w))"
    and "view (snd (update_h i z w)) i = snd (update (view w i) (arrays w ! z))"
proof -
  let ?kf = "view w i"
  let ?r = "bind_err (innovation ?kf (arrays w ! z)) (\<lambda>y.
            bind_err (innovation_cov ?kf) (\<lambda>S.
            bind_err (kalman_gain ?kf S) (\<lambda>K.
            bind_err (update_x ?kf K y) (\<lambda>x'. Inr (K, x')))))"
  have "grows i w (snd (update_h i z w)) \<and>
        view (snd (update_h i z w)) i = snd (update (view w i) (arrays w ! z))"
  proof (cases ?r)
    case (Inl e)
    then show ?thesis using wf by (simp add: update_h_def update_def grows_refl Let_def)
  next
    case (Inr p)
    obtain K x' where p: "p = (K, x')" by (cases p)
    define w2 where "w2 = set_attr i (\<lambda>ob. ob\<lparr>o_x := fst (new_array x' w)\<rparr>) (snd (new_array x' w))"
    have g2: "grows i w w2" and v2: "view w2 i = (view w i)\<lparr>kf_x := x'\<rparr>"
      by (rule assign_x [OF wf i w2_def])+
    have wf2: "wf_world w2" and i2: "i < length (insts w2)"
      using g2 i by (simp_all add: grows_def)
    show ?thesis
    proof (cases "joseph ((view w i)\<lparr>kf_x := x'\<rparr>) K")
      case (Inl e)
      then have "snd (update_h i z w) = w2"
        using Inr p v2 by (simp add: update_h_def w2_def split_beta Let_def)
      then show ?thesis using g2 v2 Inr p Inl by (simp add: update_def)
    next
      case P: (Inr P')
      define w4 where "w4 = set_attr i (\<lambda>ob. ob\<lparr>o_P := fst (new_array P' w2)\<rparr>) (snd (new_array P' w2))"
      have g4: "grows i w2 w4" and v4: "view w4 i = (view w2 i)\<lparr>kf_P := P'\<rparr>"
        by (rule assign_P [OF wf2 i2 w4_def])+
      have "snd (update_h i z w) = w4"
        using Inr p P v2 by (simp add: update_h_def w2_def w4_def split_beta Let_def)
      then show ?thesis
        using grows_trans [OF g2 g4] v4 v2 Inr p P by (simp add: update_def)
    qed
  qed
  then show "grows i w (snd (update_h i z w))"
    and "view (snd (update_h i z w)) i = snd (update (view w i) (arrays w ! z))"
    by simp_all
qed

lemma step_h_sim:
  assumes wf: "wf_world w" and i: "i < length (insts w)"
  shows "grows i w (step_h i c w)"
    and "view (step_h i c w) i = apply_call (arrays w ! arg_of c) c (view w i)"
  using predict_h_sim [OF wf i] update_h_sim [OF wf i] by (cases c; simp)+

lemma feed_both_pure:
  assumes "wf_world w" "a < length (insts w)" "b < length (insts w)" "a \<noteq> b"
    and "view w a = view w b"
    and "list_all (\<lambda>c. arg_of c < length (arrays w)) cs"
  shows "feed_both a b cs w
           = map (\<lambda>kf. (kf, kf)) (pure_run (\<lambda>r. arrays w ! r) cs (view w a))"
  using assms
proof (induction cs arbitrary: w)
  case Nil
  then show ?case by simp
next
  case (Cons c cs)
  let ?v = "arrays w ! arg_of c"
  let ?w1 = "step_h a c w"
  let ?w2 = "step_h b c ?w1"
  let ?kf = "apply_call ?v c (view w a)"
  have arg: "arg_of c < length (arrays w)" and rest: "list_all (\<lambda>c. arg_of c < length (arrays w)) cs"
    using Cons.prems(6) by simp_all
  have g1: "grows a w ?w1" and v1: "view ?w1 a = ?kf"
    by (rule step_h_sim [OF Cons.prems(1,2)])+
  have wf1: "wf_world ?w1" and l1: "length (insts ?w1) = length (insts w)"
    using g1 by (simp_all add: grows_def)
  have b1: "view ?w1 b = view w b"
    by (rule grows_view_other [OF g1 Cons.prems(1)]) (use Cons.prems in simp_all)
  have arg1: "arrays ?w1 ! arg_of c = ?v" by (rule grows_arrays [OF g1 arg])
  have g2: "grows b ?w1 ?w2"
    by (rule step_h_sim(1) [OF wf1]) (simp add: l1 Cons.prems(3))
  have "view ?w2 b = apply_call (arrays ?w1 ! arg_of c) c (view ?w1 b)"
    by (rule step_h_sim(2) [OF wf1]) (simp add: l1 Cons.prems(3))
  then have v2b: "view ?w2 b = ?kf" using arg1 b1 Cons.prems(5) by simp
  have v2a: "view ?w2 a = ?kf"
    using grows_view_other [OF g2 wf1, of a] Cons.prems(2,4) l1 v1 by simp
  have wf2: "wf_world ?w2" and l2: "length (insts ?w2) = length (insts w)"
    using g2 l1 by (simp_all add: grows_def)
  have len: "length (arrays w) \<le> length (arrays ?w2)"
    using grows_length [OF g1] grows_length [OF g2] by simp
  have same: "arrays ?w2 ! r = arrays w ! r" if "r < length (arrays w)" for r
    using grows_arrays [OF g2, of r] grows_arrays [OF g1 that] grows_length [OF g1] that by simp
  have rest2: "list_all (\<lambda>c. arg_of c < length (arrays ?w2)) cs"
    using rest len by (auto simp: list_all_iff)
  have IH: "feed_both a b cs ?w2
              = map (\<lambda>kf. (kf, kf)) (pure_run (\<lambda>r. arrays ?w2 ! r) cs (view ?w2 a))"
    by (rule Cons.IH [OF wf2 _ _ Cons.prems(4) _ rest2])
       (simp_all add: l2 Cons.prems(2,3) v2a v2b)
  have env: "pure_run (\<lambda>r. arrays ?w2 ! r) cs kf = pure_run (\<lambda>r. arrays w ! r) cs kf" for kf
    using rest
  proof (induction cs arbitrary: kf)
    case Nil
    then show ?case by simp
  next
    case (Cons d ds)
    then show ?case by (simp add: same Let_def)
  qed
  show ?case
    using IH v2a v2b by (simp add: Let_def env)
qed

lemma default_ref_sim:
  assumes "opt_ok w r" "default_ref d r w = (k, w')"
  shows "insts w' = insts w" and "\<exists>ys. arrays w' = arrays w @ ys"
    and "k < length (arrays w')" and "arrays w' ! k = default_to d (deref_opt w r)"
  using assms
  by (auto simp: default_ref_def new_array_def opt_ok_def default_to_def deref_opt_def
           split: option.splits)

lemma ext_trans: "ext w w1 \<Longrightarrow> ext w1 w2 \<Longrightarrow> ext w w2"
  by (auto simp: ext_def)

lemma ext_nth: "ext w w' \<Longrightarrow> r < length (arrays w) \<Longrightarrow> arrays w' ! r = arrays w ! r"
  by (auto simp: ext_def nth_append)

lemma ext_less: "ext w w' \<Longrightarrow> r < length (arrays w) \<Longrightarrow> r < length (arrays w')"
  by (auto simp: ext_def)

lemma ext_opt: "ext w w' \<Longrightarrow> opt_ok w r \<Longrightarrow> opt_ok w' r \<and> deref_opt w' r = deref_opt w r"
  by (cases r) (auto simp: ext_def opt_ok_def deref_opt_def nth_append)

lemma default_ref_ext:
  assumes "opt_ok w r" "default_ref d r w = (k, w')"
  shows "ext w w'" and "k < length (arrays w')"
    and "arrays w' ! k = default_to d (deref_opt w r)"
  using default_ref_sim [OF assms] by (simp_all add: ext_def)

lemma init_h_sim:
  assumes wf: "wf_world w"
    and ok: "opt_ok w F" "opt_ok w B" "opt_ok w H" "opt_ok w Q" "opt_ok w R" "opt_ok w x0"
            "opt_ok w P"
    and r: "init_h F B H Q R x0 P w = (Inr a, w1)"
  shows "a = length (insts w)"
    and "\<exists>ob. insts w1 = insts w @ [ob]"
    and "\<exists>ys. arrays w1 = arrays w @ ys"
    and "wf_world w1"
    and "init (deref_opt w F) (deref_opt w B) (deref_opt w H) (deref_opt w Q)
              (deref_opt w R) (deref_opt w x0) (deref_opt w P) = Inr (view w1 a)"
proof -
  from r obtain rF rH n m where F: "F = Some rF" and H: "H = Some rH"
    and n: "shape_1 (arrays w ! rF) = Inr n" and m: "shape_1 (arrays w ! rH) = Inr m"
    by (auto simp: init_h_def split: option.splits sum.splits)
  obtain rB wB where dB: "default_ref (Scalar 0) B w = (rB, wB)" by (cases "default_ref (Scalar 0) B w")
  obtain rQ wQ where dQ: "default_ref (np_eye n) Q wB = (rQ, wQ)" by (cases "default_ref (np_eye n) Q wB")
  obtain rR wR where dR: "default_ref (np_eye n) R wQ = (rR, wR)" by (cases "default_ref (np_eye n) R wQ")
  obtain rP wP where dP: "default_ref (np_eye n) P wR = (rP, wP)" by (cases "default_ref (np_eye n) P wR")
  obtain rx wx where dx: "default_ref (np_zeros n 1) x0 wP = (rx, wx)"
    by (cases "default_ref (np_zeros n 1) x0 wP")
  let ?ob = "\<lparr> o_n = n, o_m = m, o_F = rF, o_H = rH, o_B = rB,
               o_Q = rQ, o_R = rR, o_P = rP, o_x = rx \<rparr>"
  have dx': "default_ref (np_zeros n (Suc 0)) x0 wP = (rx, wx)" using dx by simp
  have res: "a = length (insts wx)" "w1 = wx\<lparr>insts := insts wx @ [?ob]\<rparr>"
    using r by (simp_all add: init_h_def F H n m dB dQ dR dP dx')
  note eB = default_ref_ext [OF ok(2) dB]
  have okQ: "opt_ok wB Q" using ext_opt [OF eB(1) ok(4)] by simp
  note eQ = default_ref_ext [OF okQ dQ]
  have e2: "ext w wQ" by (rule ext_trans [OF eB(1) eQ(1)])
  have okR: "opt_ok wQ R" using ext_opt [OF e2 ok(5)] by simp
  note eR = default_ref_ext [OF okR dR]
  have e3: "ext w wR" by (rule ext_trans [OF e2 eR(1)])
  have okP: "opt_ok wR P" using ext_opt [OF e3 ok(7)] by simp
  note eP = default_ref_ext [OF okP dP]
  have e4: "ext w wP" by (rule ext_trans [OF e3 eP(1)])
  have okx: "opt_ok wP x0" using ext_opt [OF e4 ok(6)] by simp
  note ex = default_ref_ext [OF okx dx]
  have e5: "ext w wx" by (rule ext_trans [OF e4 ex(1)])
  have lF: "rF < length (arrays w)" and lH: "rH < length (arrays w)"
    using ok(1,3) F H by (simp_all add: opt_ok_def)
  \<comment> \<open>the references of the new instance, read in the final world\<close>
  have vF: "rF < length (arrays wx)" "arrays wx ! rF = arrays w ! rF"
    using ext_less [OF e5 lF] ext_nth [OF e5 lF] by simp_all
  have vH: "rH < length (arrays wx)" "arrays wx ! rH = arrays w ! rH"
    using ext_less [OF e5 lH] ext_nth [OF e5 lH] by simp_all
  have eBx: "ext wB wx"
    by (rule ext_trans [OF eQ(1) ext_trans [OF eR(1) ext_trans [OF eP(1) ex(1)]]])
  have eQx: "ext wQ wx" by (rule ext_trans [OF eR(1) ext_trans [OF eP(1) ex(1)]])
  have eRx: "ext wR wx" by (rule ext_trans [OF eP(1) ex(1)])
  have vB: "rB < length (arrays wx)" "arrays wx ! rB = default_to (Scalar 0) (deref_opt w B)"
    using ext_less [OF eBx eB(2)] ext_nth [OF eBx eB(2)] eB(3) by simp_all
  have vQ: "rQ < length (arrays wx)" "arrays wx ! rQ = default_to (np_eye n) (deref_opt w Q)"
    using ext_less [OF eQx eQ(2)] ext_nth [OF eQx eQ(2)] eQ(3) ext_opt [OF eB(1) ok(4)]
    by simp_all
  have vR: "rR < length (arrays wx)" "arrays wx ! rR = default_to (np_eye n) (deref_opt w R)"
    using ext_less [OF eRx eR(2)] ext_nth [OF eRx eR(2)] eR(3) ext_opt [OF e2 ok(5)]
    by simp_all
  have vP: "rP < length (arrays wx)" "arrays wx ! rP = default_to (np_eye n) (deref_opt w P)"
    using ext_less [OF ex(1) eP(2)] ext_nth [OF ex(1) eP(2)] eP(3) ext_opt [OF e3 ok(7)]
    by simp_all
  have vx: "rx < length (arrays wx)" "arrays wx ! rx = default_to (np_zeros n 1) (deref_opt w x0)"
    using ex(2,3) ext_opt [OF e4 ok(6)] by simp_all
  have ins: "insts wx = insts w" and arr: "\<exists>ys. arrays wx = arrays w @ ys"
    using e5 by (simp_all add: ext_def)
  show "a = length (insts w)" using res(1) ins by simp
  show "\<exists>ob. insts w1 = insts w @ [ob]" using res(2) ins by simp
  show "\<exists>ys. arrays w1 = arrays w @ ys" using res(2) arr by simp
  show "wf_world w1"
    unfolding wf_world_def list_all_length
  proof (intro allI impI)
    fix j assume j: "j < length (insts w1)"
    show "refs_ok w1 (insts w1 ! j)"
    proof (cases "j < length (insts w)")
      case True
      then have "refs_ok w (insts w ! j)" by (rule wf_worldD [OF wf])
      then have "refs_ok wx (insts w ! j)"
        using ext_less [OF e5] by (simp add: refs_ok_def)
      then show ?thesis using True by (simp add: res(2) ins nth_append refs_ok_def)
    next
      case False
      then have "j = length (insts w)" using j by (simp add: res(2) ins)
      then show ?thesis
        using vF(1) vH(1) vB(1) vQ(1) vR(1) vP(1) vx(1)
        by (simp add: res(2) ins refs_ok_def)
    qed
  qed
  show "init (deref_opt w F) (deref_opt w B) (deref_opt w H) (deref_opt w Q)
              (deref_opt w R) (deref_opt w x0) (deref_opt w P) = Inr (view w1 a)"
    using n m vF(2) vH(2) vB(2) vQ(2) vR(2) vP(2) vx(2)
    by (simp add: init_def bind_err_def F H deref_opt_def view_def res ins Let_def)
qed

lemma opt_ok_append:
  "arrays w' = arrays w @ ys \<Longrightarrow> opt_ok w r \<Longrightarrow> opt_ok w' r \<and> deref_opt w' r = deref_opt w r"
  by (cases r) (auto simp: opt_ok_def deref_opt_def nth_append)


section \<open>The constructor\<close>

text \<open>
  Claim C10. The constructor stores in \<^verbatim>\<open>self.m\<close> the number of columns of \<open>H\<close>:
  for an observation matrix with \<open>c\<close> columns, whatever its number of rows, the
  stored field is \<open>c\<close>, the state dimension of a consistent model and not its
  measurement dimension.
\<close>

theorem init_m_is_columns_of_H:
  "\<exists>kf. init (Some (Arr2 cF Frows)) B (Some (Arr2 cH Hrows)) Q R x0 P = Inr kf
        \<and> kf_m kf = cH"
  by (simp add: init_def bind_err_def)

theorem init_m_is_columns_of_H_witness:
  "length [[1 :: real, 0, 0]] = 1 \<and>
   (\<exists>kf. init (Some demo_F) None (Some (Arr2 3 [[1, 0, 0]])) None None None None = Inr kf
         \<and> kf_m kf = 3)"
  using init_m_is_columns_of_H
          [of 3 "[[1, 1 / 60, 0], [0, 1, 1 / 60], [0, 0, 1]]" None 3 "[[1, 0, 0]]"
              None None None None]
  by (simp add: demo_F_def)

text \<open>
  Claim C3 says that an omitted \<open>R\<close> defaults to an \<open>m \<times> m\<close> matrix. The constructor
  evaluates \<^verbatim>\<open>np.eye(self.n)\<close>: on the demo's model, whose \<open>H\<close> is \<open>1 \<times> 3\<close>, the stored
  default is the \<open>3 \<times> 3\<close> identity. With it \<open>R + H\<cdot>P\<cdot>H\<^sup>T\<close> is broadcast to \<open>3 \<times> 3\<close>, and
  \<^verbatim>\<open>update\<close> raises \<^verbatim>\<open>ValueError\<close> at the product \<open>(P\<cdot>H\<^sup>T)\<cdot>S\<^sup>-\<^sup>1\<close>, for the scalar
  measurement of the demo loop and for a \<open>1 \<times> 1\<close> measurement alike. By
  \<open>update_fails_with_default_R\<close> this is so for every model whose \<open>H\<close> has another number
  of rows than columns.
\<close>

theorem default_R_is_n_by_n:
  "init (Some demo_F) None (Some demo_H) None None None None =
     Inr \<lparr> kf_n = 3, kf_m = 3, kf_F = demo_F, kf_H = demo_H, kf_B = Scalar 0,
           kf_Q = Arr2 3 [[1, 0, 0], [0, 1, 0], [0, 0, 1]],
           kf_R = Arr2 3 [[1, 0, 0], [0, 1, 0], [0, 0, 1]],
           kf_P = Arr2 3 [[1, 0, 0], [0, 1, 0], [0, 0, 1]],
           kf_x = Arr2 1 [[0], [0], [0]] \<rparr> \<and>
   innovation_cov (demo_kf\<lparr>kf_R := Arr2 3 [[1, 0, 0], [0, 1, 0], [0, 0, 1]]\<rparr>)
     = Inr (Arr2 3 [[2, 1, 1], [1, 2, 1], [1, 1, 2]]) \<and>
   fst (update (demo_kf\<lparr>kf_R := Arr2 3 [[1, 0, 0], [0, 1, 0], [0, 0, 1]]\<rparr>) (Scalar 1990))
     = Inl ValueError \<and>
   fst (update (demo_kf\<lparr>kf_R := Arr2 3 [[1, 0, 0], [0, 1, 0], [0, 0, 1]]\<rparr>) (Arr2 1 [[1990]]))
     = Inl ValueError"
  by code_simp

text \<open>
  Claim C4, as the code has it. When \<open>F\<close> or \<open>H\<close> is omitted the constructor raises
  \<^verbatim>\<open>ValueError\<close>; it never raises \<^verbatim>\<open>InvalidModelError\<close>. It compares no dimensions: given
  any two arrays of rank 2 as \<open>F\<close> and \<open>H\<close> it returns an instance, \<^verbatim>\<open>self.n\<close> and \<^verbatim>\<open>self.m\<close>
  being their column counts.
\<close>

theorem init_checks_omission_only:
  "(F = None \<or> H = None \<longrightarrow> init F B H Q R x0 P = Inl ValueError) \<and>
   init F B H Q R x0 P \<noteq> Inl InvalidModelError \<and>
   (\<exists>kf. init (Some (Arr2 cF Frows)) B (Some (Arr2 cH Hrows)) Q R x0 P = Inr kf
         \<and> kf_n kf = cF \<and> kf_m kf = cH)"
proof (intro conjI impI)
  show "init F B H Q R x0 P \<noteq> Inl InvalidModelError"
    using init_error [of F B H Q R x0 P InvalidModelError] by auto
next
  assume "F = None \<or> H = None"
  then show "init F B H Q R x0 P = Inl ValueError"
    by (auto simp: init_def split: option.splits)
next
  show "\<exists>kf. init (Some (Arr2 cF Frows)) B (Some (Arr2 cH Hrows)) Q R x0 P = Inr kf
             \<and> kf_n kf = cF \<and> kf_m kf = cH"
    by (simp add: init_def bind_err_def)
qed

theorem init_checks_omission_only_witness:
  "(init None None (Some demo_H) None None None None = Inl ValueError) \<and>
   (init (Some demo_F) None None None None None None = Inl ValueError) \<and>
   (\<exists>kf. init (Some (Arr2 3 [[1, 0, 0], [0, 1, 0], [0, 0, 1]])) None
               (Some (Arr2 4 [[1, 0, 0, 0]])) None None None None = Inr kf
         \<and> kf_n kf = 3 \<and> kf_m kf = 4)"
  using init_checks_omission_only
          [of None "Some demo_H" None None None None None
              3 "[[1, 0, 0], [0, 1, 0], [0, 0, 1]]" 4 "[[1, 0, 0, 0]]"]
        init_checks_omission_only
          [of "Some demo_F" None None None None None None
              3 "[[1, 0, 0], [0, 1, 0], [0, 0, 1]]" 4 "[[1, 0, 0, 0]]"]
  by simp

text \<open>
  Against claim C4 as stated: with \<open>F\<close> of shape \<open>3 \<times> 3\<close> and \<open>H\<close> of shape \<open>1 \<times> 4\<close>
  the constructor returns an instance, and with \<open>F\<close> omitted the exception is
  \<^verbatim>\<open>ValueError\<close>.
\<close>

theorem init_accepts_inconsistent_shapes:
  "init (Some (Arr2 3 [[1, 0, 0], [0, 1, 0], [0, 0, 1]])) None
        (Some (Arr2 4 [[1, 0, 0, 0]])) None None None None =
     Inr \<lparr> kf_n = 3, kf_m = 4,
           kf_F = Arr2 3 [[1, 0, 0], [0, 1, 0], [0, 0, 1]],
           kf_H = Arr2 4 [[1, 0, 0, 0]], kf_B = Scalar 0,
           kf_Q = Arr2 3 [[1, 0, 0], [0, 1, 0], [0, 0, 1]],
           kf_R = Arr2 3 [[1, 0, 0], [0, 1, 0], [0, 0, 1]],
           kf_P = Arr2 3 [[1, 0, 0], [0, 1, 0], [0, 0, 1]],
           kf_x = Arr2 1 [[0], [0], [0]] \<rparr>
   \<and> init None None (Some (Arr2 4 [[1, 0, 0, 0]])) None None None None \<noteq> Inl InvalidModelError"
  by code_simp

section \<open>Prediction\<close>

text \<open>
  Claim C2. In a filter with \<open>F\<close>, \<open>P\<close> and \<open>Q\<close> of shape \<open>n \<times> n\<close> and \<open>x\<close> of shape \<open>n \<times> 1\<close>,
  \<^verbatim>\<open>predict(u)\<close> raises nothing, stores the new state first and the covariance
  \<open>F\<cdot>P\<cdot>F\<^sup>T + Q\<close> second, and returns the new state. The new state is \<open>F\<cdot>x + B\<cdot>u\<close>

    \<^item> when the filter has a matrix \<open>B\<close> of shape \<open>n \<times> p\<close> and \<open>u\<close> has shape \<open>p \<times> 1\<close>;

    \<^item> when the filter was built without \<open>B\<close>, so that \<^verbatim>\<open>self.B\<close> is the number \<open>0\<close>, and \<open>u\<close>
      is a number (the default \<open>0\<close> of \<^verbatim>\<open>predict()\<close> is one) or an array of shape \<open>n \<times> 1\<close> or
      \<open>1 \<times> 1\<close>: there \<open>B\<cdot>u\<close> is an array of zeros and the new state is \<open>F\<cdot>x\<close>. This is
      the filter that \<^verbatim>\<open>KalmanExample\<close> builds.
\<close>

theorem predict_computes:
  assumes F: "kf_F kf = Arr2 n F" "is_mat n n F"
    and x: "kf_x kf = Arr2 1 x" "is_mat n 1 x"
    and P: "kf_P kf = Arr2 n P" "is_mat n n P"
    and Q: "kf_Q kf = Arr2 n Q" "is_mat n n Q"
  shows "(\<forall>p B u. kf_B kf = Arr2 p B \<and> is_mat n p B \<and> is_mat p 1 u \<longrightarrow>
            predict kf (Arr2 1 u) =
              (Inr (Arr2 1 (mat_add (mat_mul n 1 F x) (mat_mul p 1 B u))),
               kf\<lparr>kf_x := Arr2 1 (mat_add (mat_mul n 1 F x) (mat_mul p 1 B u)),
                  kf_P := Arr2 n (mat_add (mat_mul n n (mat_mul n n F P) (mat_T n F)) Q)\<rparr>)) \<and>
         (\<forall>u. kf_B kf = Scalar 0 \<and>
              ((\<exists>a. u = Scalar a) \<or> has_shape n 1 u \<or> has_shape 1 1 u) \<longrightarrow>
            predict kf u =
              (Inr (Arr2 1 (mat_mul n 1 F x)),
               kf\<lparr>kf_x := Arr2 1 (mat_mul n 1 F x),
                  kf_P := Arr2 n (mat_add (mat_mul n n (mat_mul n n F P) (mat_T n F)) Q)\<rparr>))"
proof (intro conjI allI impI)
  fix p B u
  assume h: "kf_B kf = Arr2 p B \<and> is_mat n p B \<and> is_mat p 1 u"
  then have B: "kf_B kf = Arr2 p B" "is_mat n p B" and u: "is_mat p 1 u" by simp_all
  have lenF: "length F = n" and lenB: "length B = n"
    using F(2) B(2) by (simp_all add: is_mat_def)
  have Fx: "np_dot (kf_F kf) (kf_x kf) = Inr (Arr2 1 (mat_mul n 1 F x))"
    unfolding F(1) x(1) by (rule np_dot_shapes [OF x(2)])
  have Bu: "np_dot (kf_B kf) (Arr2 1 u) = Inr (Arr2 1 (mat_mul p 1 B u))"
    unfolding B(1) by (rule np_dot_shapes [OF u])
  have sum: "np_add (Arr2 1 (mat_mul n 1 F x)) (Arr2 1 (mat_mul p 1 B u))
               = Inr (Arr2 1 (mat_add (mat_mul n 1 F x) (mat_mul p 1 B u)))"
    by (rule np_add_same_shape [of n]) (simp_all add: is_mat_mul lenF lenB)
  have px: "predict_x kf (Arr2 1 u)
              = Inr (Arr2 1 (mat_add (mat_mul n 1 F x) (mat_mul p 1 B u)))"
    unfolding predict_x_def Fx Bu bind_err_def sum.case sum ..
  have pP: "predict_P (kf\<lparr>kf_x := Arr2 1 (mat_add (mat_mul n 1 F x) (mat_mul p 1 B u))\<rparr>)
              = Inr (Arr2 n (mat_add (mat_mul n n (mat_mul n n F P) (mat_T n F)) Q))"
    using F P Q by (intro predict_P_computes) simp_all
  show "predict kf (Arr2 1 u) =
          (Inr (Arr2 1 (mat_add (mat_mul n 1 F x) (mat_mul p 1 B u))),
           kf\<lparr>kf_x := Arr2 1 (mat_add (mat_mul n 1 F x) (mat_mul p 1 B u)),
              kf_P := Arr2 n (mat_add (mat_mul n n (mat_mul n n F P) (mat_T n F)) Q)\<rparr>)"
    unfolding predict_def px sum.case Let_def pP by simp
next
  fix u
  assume h: "kf_B kf = Scalar 0 \<and>
             ((\<exists>a. u = Scalar a) \<or> has_shape n 1 u \<or> has_shape 1 1 u)"
  then have B: "kf_B kf = Scalar 0"
    and u: "(\<exists>a. u = Scalar a) \<or> has_shape n 1 u \<or> has_shape 1 1 u" by simp_all
  have px: "predict_x kf u = Inr (Arr2 1 (mat_mul n 1 F x))"
    by (rule predict_x_without_B [OF B F x u])
  have pP: "predict_P (kf\<lparr>kf_x := Arr2 1 (mat_mul n 1 F x)\<rparr>)
              = Inr (Arr2 n (mat_add (mat_mul n n (mat_mul n n F P) (mat_T n F)) Q))"
    using F P Q by (intro predict_P_computes) simp_all
  show "predict kf u =
          (Inr (Arr2 1 (mat_mul n 1 F x)),
           kf\<lparr>kf_x := Arr2 1 (mat_mul n 1 F x),
              kf_P := Arr2 n (mat_add (mat_mul n n (mat_mul n n F P) (mat_T n F)) Q)\<rparr>)"
    unfolding predict_def px sum.case Let_def pP by simp
qed

theorem predict_computes_witness:
  "predict ctl_kf (Arr2 1 [[3]]) =
     (Inr (Arr2 1 [[2], [4]]),
      ctl_kf\<lparr>kf_x := Arr2 1 [[2], [4]], kf_P := Arr2 2 [[5, 2], [2, 3]]\<rparr>) \<and>
   predict demo_kf (Scalar 0) =
     (Inr (Arr2 1 [[2000], [327 / 2000], [981 / 100]]),
      demo_kf\<lparr>kf_x := Arr2 1 [[2000], [327 / 2000], [981 / 100]],
              kf_P := Arr2 3 [[3781 / 3600, 1 / 15, 0], [1 / 15, 3781 / 3600, 1 / 60],
                              [0, 1 / 60, 1]]\<rparr>)"
proof -
  have c: "kf_F ctl_kf = Arr2 2 [[1, 1], [0, 1]]" "is_mat 2 2 [[1, 1], [0, 1 :: real]]"
      "kf_x ctl_kf = Arr2 1 [[1], [1]]" "is_mat 2 1 [[1], [1 :: real]]"
      "kf_P ctl_kf = Arr2 2 [[2, 0], [0, 2]]" "is_mat 2 2 [[2, 0], [0, 2 :: real]]"
      "kf_Q ctl_kf = Arr2 2 [[1, 0], [0, 1]]" "is_mat 2 2 [[1, 0], [0, 1 :: real]]"
    by (simp_all add: ctl_kf_def is_mat_def)
  have cB: "kf_B ctl_kf = Arr2 1 [[0], [1]] \<and> is_mat 2 1 [[0], [1 :: real]] \<and>
            is_mat 1 1 [[3 :: real]]"
    by (simp add: ctl_kf_def is_mat_def)
  have d: "kf_F demo_kf = Arr2 3 [[1, 1 / 60, 0], [0, 1, 1 / 60], [0, 0, 1]]"
      "is_mat 3 3 [[1, 1 / 60, 0], [0, 1, 1 / 60], [0, 0, 1 :: real]]"
      "kf_x demo_kf = Arr2 1 [[2000], [0], [9.81]]" "is_mat 3 1 [[2000], [0], [9.81 :: real]]"
      "kf_P demo_kf = Arr2 3 [[1, 0, 0], [0, 1, 0], [0, 0, 1]]"
      "is_mat 3 3 [[1, 0, 0], [0, 1, 0], [0, 0, 1 :: real]]"
      "kf_Q demo_kf = Arr2 3 [[1 / 20, 1 / 20, 0], [1 / 20, 1 / 20, 0], [0, 0, 0]]"
      "is_mat 3 3 [[1 / 20, 1 / 20, 0], [1 / 20, 1 / 20, 0], [0, 0, 0 :: real]]"
    by (simp_all add: demo_kf_def demo_F_def demo_x0_def demo_Q_def is_mat_def)
  have dB: "kf_B demo_kf = Scalar 0 \<and>
            ((\<exists>a. Scalar 0 = Scalar a) \<or> has_shape 3 1 (Scalar 0) \<or> has_shape 1 1 (Scalar 0))"
    by (simp add: demo_kf_def)
  have "predict ctl_kf (Arr2 1 [[3]]) =
          (Inr (Arr2 1 (mat_add (mat_mul 2 1 [[1, 1], [0, 1]] [[1], [1]])
                                (mat_mul 1 1 [[0], [1]] [[3]]))),
           ctl_kf\<lparr>kf_x := Arr2 1 (mat_add (mat_mul 2 1 [[1, 1], [0, 1]] [[1], [1]])
                                         (mat_mul 1 1 [[0], [1]] [[3]])),
                  kf_P := Arr2 2 (mat_add (mat_mul 2 2 (mat_mul 2 2 [[1, 1], [0, 1]]
                                                        [[2, 0], [0, 2]])
                                            (mat_T 2 [[1, 1], [0, 1]]))
                                          [[1, 0], [0, 1]])\<rparr>)"
    using predict_computes [OF c] cB by blast
  also have "\<dots> = (Inr (Arr2 1 [[2], [4]]),
      ctl_kf\<lparr>kf_x := Arr2 1 [[2], [4]], kf_P := Arr2 2 [[5, 2], [2, 3]]\<rparr>)"
    by code_simp
  finally have 1: "predict ctl_kf (Arr2 1 [[3]]) =
     (Inr (Arr2 1 [[2], [4]]),
      ctl_kf\<lparr>kf_x := Arr2 1 [[2], [4]], kf_P := Arr2 2 [[5, 2], [2, 3]]\<rparr>)" .
  have "predict demo_kf (Scalar 0) =
          (Inr (Arr2 1 (mat_mul 3 1 [[1, 1 / 60, 0], [0, 1, 1 / 60], [0, 0, 1]]
                                    [[2000], [0], [9.81]])),
           demo_kf\<lparr>kf_x := Arr2 1 (mat_mul 3 1 [[1, 1 / 60, 0], [0, 1, 1 / 60], [0, 0, 1]]
                                              [[2000], [0], [9.81]]),
                   kf_P := Arr2 3 (mat_add
                     (mat_mul 3 3 (mat_mul 3 3 [[1, 1 / 60, 0], [0, 1, 1 / 60], [0, 0, 1]]
                                              [[1, 0, 0], [0, 1, 0], [0, 0, 1]])
                                  (mat_T 3 [[1, 1 / 60, 0], [0, 1, 1 / 60], [0, 0, 1]]))
                     [[1 / 20, 1 / 20, 0], [1 / 20, 1 / 20, 0], [0, 0, 0]])\<rparr>)"
    using predict_computes [OF d] dB by blast
  also have "\<dots> = (Inr (Arr2 1 [[2000], [327 / 2000], [981 / 100]]),
      demo_kf\<lparr>kf_x := Arr2 1 [[2000], [327 / 2000], [981 / 100]],
              kf_P := Arr2 3 [[3781 / 3600, 1 / 15, 0], [1 / 15, 3781 / 3600, 1 / 60],
                              [0, 1 / 60, 1]]\<rparr>)"
    by code_simp
  finally show ?thesis using 1 by blast
qed





text \<open>
  Claim C8. When \<open>P\<close> and \<open>Q\<close> equal their transposes, so does the covariance of the
  filter after \<^verbatim>\<open>predict\<close>, and so does the value of
  \<^verbatim>\<open>np.dot(np.dot(F, P), F.T) + Q\<close> whenever it is defined. The arithmetic is exact. No
  shape is assumed: the statement covers broadcasting and a call that fails, which
  leaves \<open>P\<close> as it was.
\<close>

theorem predict_keeps_symmetry:
  assumes F: "wf_arr (kf_F kf)" and P: "np_T (kf_P kf) = kf_P kf"
    and Q: "np_T (kf_Q kf) = kf_Q kf"
  shows "np_T (kf_P (snd (predict kf u))) = kf_P (snd (predict kf u)) \<and>
         (\<forall>P'. predict_P kf = Inr P' \<longrightarrow> np_T P' = P')"
proof
  show "np_T (kf_P (snd (predict kf u))) = kf_P (snd (predict kf u))"
  proof (cases "predict_x kf u")
    case (Inl e)
    then show ?thesis using P by (simp add: predict_def)
  next
    case (Inr x')
    let ?kf1 = "kf\<lparr>kf_x := x'\<rparr>"
    show ?thesis
    proof (cases "predict_P ?kf1")
      case (Inl e)
      then show ?thesis using P Inr by (simp add: predict_def)
    next
      case r: (Inr P')
      have "np_T P' = P'"
        by (rule predict_P_symmetric [OF _ _ _ r]) (use F P Q in simp_all)
      then show ?thesis using Inr r by (simp add: predict_def)
    qed
  qed
next
  show "\<forall>P'. predict_P kf = Inr P' \<longrightarrow> np_T P' = P'"
    using predict_P_symmetric [OF F P Q] by blast
qed

theorem predict_keeps_symmetry_witness:
  "wf_arr (kf_F ctl_kf) \<and> np_T (kf_P ctl_kf) = kf_P ctl_kf \<and> np_T (kf_Q ctl_kf) = kf_Q ctl_kf \<and>
   kf_P (snd (predict ctl_kf (Arr2 1 [[3]]))) = Arr2 2 [[5, 2], [2, 3]] \<and>
   np_T (Arr2 2 [[5, 2], [2, 3]]) = Arr2 2 [[5, 2], [2, 3]]"
proof -
  have F: "wf_arr (kf_F ctl_kf)" by code_simp
  have P: "np_T (kf_P ctl_kf) = kf_P ctl_kf" by code_simp
  have Q: "np_T (kf_Q ctl_kf) = kf_Q ctl_kf" by code_simp
  have e: "kf_P (snd (predict ctl_kf (Arr2 1 [[3]]))) = Arr2 2 [[5, 2], [2, 3]]" by code_simp
  have "np_T (kf_P (snd (predict ctl_kf (Arr2 1 [[3]]))))
          = kf_P (snd (predict ctl_kf (Arr2 1 [[3]])))"
    using predict_keeps_symmetry [OF F P Q] by blast
  then have "np_T (Arr2 2 [[5, 2], [2, 3]]) = Arr2 2 [[5, 2], [2, 3]]"
    unfolding e .
  then show ?thesis using F P Q e by blast
qed
section \<open>Correction\<close>







section \<open>Failure and the state\<close>

text \<open>
  Claim C6, as the code has it. A failing \<^verbatim>\<open>predict\<close> or \<^verbatim>\<open>update\<close> leaves every
  attribute but \<^verbatim>\<open>self.x\<close> as it was, \<^verbatim>\<open>self.P\<close> included. Both methods assign
  \<^verbatim>\<open>self.x\<close> before they compute the covariance, so a failure of that later step
  leaves the new state behind. In a filter of consistent dimensions that step cannot
  fail, and a failing call leaves the whole filter as it was.
\<close>

theorem failure_leaves_P:
  "(fst (predict kf u) = Inl e \<longrightarrow>
      snd (predict kf u) = kf\<lparr>kf_x := kf_x (snd (predict kf u))\<rparr> \<and>
      (consistent n m kf \<longrightarrow> snd (predict kf u) = kf)) \<and>
   (fst (update kf z) = Inl e \<longrightarrow>
      snd (update kf z) = kf\<lparr>kf_x := kf_x (snd (update kf z))\<rparr> \<and>
      (consistent n m kf \<longrightarrow> snd (update kf z) = kf))"
  using predict_failure predict_failure_consistent update_failure update_failure_consistent
  by blast

theorem failure_leaves_P_witness:
  "consistent 2 1 ctl_kf \<and>
   fst (predict ctl_kf (Arr2 1 [[1], [2], [3]])) = Inl ValueError \<and>
   snd (predict ctl_kf (Arr2 1 [[1], [2], [3]])) = ctl_kf \<and>
   consistent 2 2 sing_kf \<and>
   fst (update sing_kf (Arr2 1 [[1], [2]])) = Inl LinAlgError \<and>
   snd (update sing_kf (Arr2 1 [[1], [2]])) = sing_kf"
proof -
  have c1: "consistent 2 1 ctl_kf" by (simp add: consistent_def ctl_kf_def is_mat_def)
  have f1: "fst (predict ctl_kf (Arr2 1 [[1], [2], [3]])) = Inl ValueError" by code_simp
  have c2: "consistent 2 2 sing_kf" by (simp add: consistent_def sing_kf_def is_mat_def)
  have f2: "fst (update sing_kf (Arr2 1 [[1], [2]])) = Inl LinAlgError" by code_simp
  show ?thesis
    using failure_leaves_P [of ctl_kf "Arr2 1 [[1], [2], [3]]" ValueError 2 1]
          failure_leaves_P [of sing_kf _ LinAlgError 2 2 "Arr2 1 [[1], [2]]"]
          c1 f1 c2 f2
    by simp
qed


text \<open>
  Against claim C6 as stated. The constructor accepts a \<open>3 \<times> 3\<close> matrix \<open>Q\<close> for a
  two-state model; \<^verbatim>\<open>predict()\<close> then assigns \<open>F\<cdot>x\<close> to \<^verbatim>\<open>self.x\<close> and raises
  \<^verbatim>\<open>ValueError\<close> at \<open>F\<cdot>P\<cdot>F\<^sup>T + Q\<close>. Likewise \<^verbatim>\<open>update\<close>, in a filter whose \<open>F\<close> is
  \<open>3 \<times> 3\<close> while \<open>H\<close>, \<open>P\<close> and \<open>x\<close> have two states, assigns the corrected state and
  raises at \<open>I - K\<cdot>H\<close>.
\<close>

theorem predict_fails_after_assigning_x:
  "init (Some (Arr2 2 [[1, 1], [0, 1]])) None (Some (Arr2 2 [[1, 0]]))
        (Some (Arr2 3 [[1, 0, 0], [0, 1, 0], [0, 0, 1]])) (Some (Arr2 1 [[1]]))
        (Some (Arr2 1 [[1], [1]])) None = Inr bad_kf \<and>
   predict bad_kf (Scalar 0) = (Inl ValueError, bad_kf\<lparr>kf_x := Arr2 1 [[2], [1]]\<rparr>) \<and>
   kf_x bad_kf = Arr2 1 [[1], [1]] \<and>
   init (Some (Arr2 3 [[1, 0, 0], [0, 1, 0], [0, 0, 1]])) None (Some (Arr2 2 [[1, 0]]))
        None (Some (Arr2 1 [[1]])) (Some (Arr2 1 [[1], [1]]))
        (Some (Arr2 2 [[1, 0], [0, 1]])) = Inr wide_kf \<and>
   update wide_kf (Arr2 1 [[4]]) = (Inl ValueError, wide_kf\<lparr>kf_x := Arr2 1 [[5 / 2], [1]]\<rparr>) \<and>
   kf_x wide_kf = Arr2 1 [[1], [1]]"
  by code_simp
section \<open>Two instances\<close>

text \<open>
  Claim C9. Let the constructor run twice on the same argument objects, giving the
  instances \<open>a\<close> and \<open>b\<close>, and let every call of a sequence be made on \<open>a\<close> and then on
  \<open>b\<close> with the same argument object. Then \<open>a\<close> and \<open>b\<close> are distinct instances with equal
  attribute values, and after every call both hold the same values, \<open>x\<close> and \<open>P\<close>
  included: the values that the calls give on the attribute values alone, whatever
  else the world holds. A call that raises is part of the sequence.
\<close>

theorem instances_isolated:
  assumes wf: "wf_world w"
    and ok: "opt_ok w F" "opt_ok w B" "opt_ok w H" "opt_ok w Q" "opt_ok w R" "opt_ok w x0"
            "opt_ok w P"
    and a: "init_h F B H Q R x0 P w = (Inr a, w1)"
    and b: "init_h F B H Q R x0 P w1 = (Inr b, w2)"
    and cs: "list_all (\<lambda>c. arg_of c < length (arrays w2)) cs"
  shows "a \<noteq> b \<and> view w2 a = view w2 b \<and>
         feed_both a b cs w2
           = map (\<lambda>kf. (kf, kf)) (pure_run (\<lambda>r. arrays w2 ! r) cs (view w2 a))"
proof -
  note A = init_h_sim [OF wf ok a]
  from A(2) obtain oa where i1: "insts w1 = insts w @ [oa]" by blast
  from A(3) obtain ys where a1: "arrays w1 = arrays w @ ys" by blast
  note ok1 = ok [THEN opt_ok_append [OF a1]]
  note B = init_h_sim [OF A(4) ok1 [THEN conjunct1] b]
  from B(2) obtain ob where i2: "insts w2 = insts w1 @ [ob]" by blast
  from B(3) obtain zs where a2: "arrays w2 = arrays w1 @ zs" by blast
  have ab: "a \<noteq> b" using A(1) B(1) i1 by simp
  have la: "a < length (insts w1)" using A(1) i1 by simp
  have "refs_ok w1 (insts w1 ! a)" by (rule wf_worldD [OF A(4) la])
  then have va: "view w2 a = view w1 a"
    using la by (simp add: view_def i2 a2 nth_append refs_ok_def Let_def)
  have "Inr (view w2 b) = Inr (view w1 a)"
    using A(5) B(5) ok1 by simp
  then have vb: "view w2 b = view w1 a" by simp
  have eq: "view w2 a = view w2 b" using va vb by simp
  have "feed_both a b cs w2
          = map (\<lambda>kf. (kf, kf)) (pure_run (\<lambda>r. arrays w2 ! r) cs (view w2 a))"
    by (rule feed_both_pure [OF B(4) _ _ ab eq cs]) (use la B(1) i2 in simp_all)
  then show ?thesis using ab eq by simp
qed

theorem instances_isolated_witness:
  "init_h (Some 0) None (Some 1) (Some 2) (Some 3) (Some 4) None demo_world
     = (Inr 0, demo_world1) \<and>
   init_h (Some 0) None (Some 1) (Some 2) (Some 3) (Some 4) None demo_world1
     = (Inr 1, demo_world2) \<and>
   view demo_world2 0 = demo_kf \<and> view demo_world2 1 = demo_kf \<and>
   feed_both 0 1 [Predict 5, Update 6] demo_world2
     = map (\<lambda>kf. (kf, kf))
         (pure_run (\<lambda>r. arrays demo_world2 ! r) [Predict 5, Update 6] (view demo_world2 0)) \<and>
   map (\<lambda>p. kf_x (fst p)) (feed_both 0 1 [Predict 5, Update 6] demo_world2)
     = [Arr2 1 [[2000], [327 / 2000], [981 / 100]],
        Arr2 1 [[11124190 / 5581], [- (2975013 / 11162000)], [981 / 100]]]"
proof -
  have wf: "wf_world demo_world" by code_simp
  have a: "init_h (Some 0) None (Some 1) (Some 2) (Some 3) (Some 4) None demo_world
             = (Inr 0, demo_world1)" by code_simp
  have b: "init_h (Some 0) None (Some 1) (Some 2) (Some 3) (Some 4) None demo_world1
             = (Inr 1, demo_world2)" by code_simp
  have cs: "list_all (\<lambda>c. arg_of c < length (arrays demo_world2)) [Predict 5, Update 6]"
    by code_simp
  have v: "view demo_world2 0 = demo_kf" by code_simp
  have x: "map (\<lambda>p. kf_x (fst p)) (feed_both 0 1 [Predict 5, Update 6] demo_world2)
     = [Arr2 1 [[2000], [327 / 2000], [981 / 100]],
        Arr2 1 [[11124190 / 5581], [- (2975013 / 11162000)], [981 / 100]]]" by code_simp
  have "(0::nat) \<noteq> 1 \<and> view demo_world2 0 = view demo_world2 1 \<and>
        feed_both 0 1 [Predict 5, Update 6] demo_world2
          = map (\<lambda>kf. (kf, kf))
              (pure_run (\<lambda>r. arrays demo_world2 ! r) [Predict 5, Update 6] (view demo_world2 0))"
    by (rule instances_isolated [OF wf _ _ _ _ _ _ _ a b cs]) (simp_all add: opt_ok_def demo_world_def)
  then show ?thesis using a b v x by simp
qed
end
